theory Spec2Isabelle
  imports Main "HOL-Library.Word"
begin

unbundle bit_operations_syntax

section \<open>Data model of realm/transaction.cpp\<close>

text \<open>
  \<open>DB::TransactStage\<close>: \<open>transact_Ready\<close> is the stage the specification calls
  NotAttached.
\<close>

datatype TransactStage = transact_Ready | transact_Reading | transact_Writing | transact_Frozen

datatype AsyncState = Idle | Requesting | HasLock | HasCommits | Syncing

datatype LockType = Frozen | Live

text \<open>\<open>DB::ReadLockInfo\<close>: one pin in the read-lock registry.\<close>

record ReadLockInfo =
  m_version :: nat
  m_reader_idx :: nat
  m_top_ref :: nat
  m_file_size :: nat
  m_type :: LockType

text \<open>\<open>VersionID\<close> as built by \<open>VersionID{version, reader_idx}\<close>.\<close>

datatype VersionID = VersionID nat nat

text \<open>
  Everything the code can raise. \<open>Thrown n\<close> is a \<open>std::exception\<close> raised by a
  collaborator outside this file (the database handle, the commit writer, the group
  accessor); \<open>AssertionFailed\<close> is a failed \<open>REALM_ASSERT\<close>, which terminates and is
  not caught by \<open>catch (std::exception&)\<close>; \<open>OutOfBounds\<close> is an access past the end
  of a vector or an array, which the source does not check; \<open>KeyNotFound\<close> is what
  \<open>Table::get_object\<close> throws for a key the table does not hold. The last two are the
  \<open>RuntimeError(ErrorCodes::BrokenInvariant, ...)\<close> of \<open>replicate\<close>, with the arguments of
  their messages: the class name for ``must have a primary key'', the class name and
  the current name of the key for ``must be named _id''.
\<close>

datatype error =
    WrongTransactionState | StaleAccessor | Thrown nat | AssertionFailed | OutOfBounds
  | KeyNotFound | Missing_primary_key string | Primary_key_not_named_id string string

text \<open>
  The calls a Transaction makes on its collaborators (the shared \<open>DB\<close> handle, the
  \<open>Group\<close> base class, the commit writer, the completion callback, the condition
  variable), in the order they are made. A completion callback is identified by a
  number.
\<close>

datatype db_call =
    Flush_accessors_for_commit
  | Do_commit bool
  | Grab_read_lock
  | Release_read_lock ReadLockInfo
  | Leak_read_lock ReadLockInfo
  | End_write_on_correct_thread
  | Async_end_write
  | Async_sync_to_disk nat
  | Reset_free_space_tracking
  | Group_committer_commit nat
  | Remap_and_update_refs nat nat bool
  | Initiate_transact nat
  | Detach
  | Invoke_callback nat
  | Notify_all

text \<open>
  The members of \<open>Transaction\<close> that the code of this file reads or writes.
  \<open>attached\<close> is what \<open>is_attached()\<close> answers (true once the constructor has
  attached the group, false after \<open>detach()\<close>) and \<open>alloc_commit_size\<close> what
  \<open>m_alloc.get_commit_size()\<close> answers (both are declared outside this file);
  \<open>m_history\<close> records whether the cached history pointer is set;
  \<open>sync_job\<close> is the closure handed to \<open>db->async_sync_to_disk\<close> that the helper
  thread has not run yet (it captures the completion callback);
  \<open>db_calls\<close> is the log of calls made so far.
\<close>

record Transaction =
  m_transact_stage :: TransactStage
  m_async_stage :: AsyncState
  m_read_lock :: ReadLockInfo
  m_oldest_version_not_persisted :: "ReadLockInfo option"
  m_commit_exception :: "error option"
  m_async_commit_has_failed :: bool
  m_waiting_for_sync :: bool
  m_waiting_for_write_lock :: bool
  m_history :: bool
  attached :: bool
  alloc_commit_size :: nat
  sync_job :: "nat option"
  db_calls :: "db_call list"

text \<open>
  What the collaborators answer during one operation: the outcome of
  \<open>db->do_commit\<close>, of \<open>db->grab_read_lock(Live, VersionID())\<close>, of
  \<open>GroupCommitter::commit\<close>, of \<open>remap_and_update_refs\<close> and of
  \<open>Replication::initiate_transact\<close> (each marked \<open>// Throws\<close> in the source: \<open>Inl n\<close>
  or \<open>Some n\<close> is the exception \<open>Thrown n\<close>), whether a replication sink is installed,
  and the value of a default-constructed \<open>DB::ReadLockInfo\<close>.
\<close>

record db_replies =
  do_commit_reply :: "nat + nat"
  grab_read_lock_reply :: "nat + ReadLockInfo"
  group_commit_reply :: "nat option"
  remap_reply :: "nat option"
  has_replication :: bool
  initiate_transact_reply :: "nat option"
  default_read_lock :: ReadLockInfo

definition call :: "db_call \<Rightarrow> Transaction \<Rightarrow> Transaction" where
  "call c t = t\<lparr>db_calls := db_calls t @ [c]\<rparr>"

definition is_attached :: "Transaction \<Rightarrow> bool" where
  "is_attached t = attached t"

text \<open>
  Modelled from the spec: \<open>holds_write_mutex()\<close> is declared in transaction.hpp, which is
  not among the sources. Section 4.2 says rollback releases write-lock ownership
  ``unless the async coordinator currently holds it''; by section 4.3 the coordinator
  holds the lock in HasLock and in HasCommits.
\<close>

definition holds_write_mutex :: "Transaction \<Rightarrow> bool" where
  "holds_write_mutex t = (m_async_stage t = HasLock \<or> m_async_stage t = HasCommits)"

definition set_transact_stage :: "TransactStage \<Rightarrow> Transaction \<Rightarrow> Transaction" where
  "set_transact_stage stage t = t\<lparr>m_transact_stage := stage\<rparr>"

text \<open>The constructor \<open>Transaction(db, alloc, rli, stage)\<close>: a fresh handle on lock \<open>rli\<close>.\<close>

definition Transaction_ctor :: "ReadLockInfo \<Rightarrow> TransactStage \<Rightarrow> Transaction" where
  "Transaction_ctor rli stage =
     set_transact_stage stage
       \<lparr>m_transact_stage = transact_Ready, m_async_stage = Idle, m_read_lock = rli,
        m_oldest_version_not_persisted = None, m_commit_exception = None,
        m_async_commit_has_failed = False, m_waiting_for_sync = False,
        m_waiting_for_write_lock = False, m_history = False, attached = True,
        alloc_commit_size = 0, sync_job = None, db_calls = []\<rparr>"

definition get_commit_size :: "Transaction \<Rightarrow> nat" where
  "get_commit_size t =
     (if m_transact_stage t = transact_Writing then alloc_commit_size t else 0)"

subsection \<open>The async-commit coordinator\<close>

definition promote_to_async :: "Transaction \<Rightarrow> Transaction" where
  "promote_to_async t =
     (if m_async_stage t = Idle then t\<lparr>m_async_stage := HasLock\<rparr> else t)"

text \<open>
  \<open>complete_async_commit\<close>: the \<open>try\<close> block grabs a live lock, writes the group out and
  releases both the fresh lock and the retained one; the \<open>catch\<close> block stores the
  exception, sets the failure flag and releases only \<open>read_lock\<close> (still the
  default-constructed one when the grab itself threw).
\<close>

definition complete_async_commit :: "db_replies \<Rightarrow> Transaction \<Rightarrow> Transaction" where
  "complete_async_commit env t =
     (let t1 = call Grab_read_lock t in
      case grab_read_lock_reply env of
        Inl e \<Rightarrow>
          call (Release_read_lock (default_read_lock env))
            (t1\<lparr>m_commit_exception := Some (Thrown e), m_async_commit_has_failed := True\<rparr>)
      | Inr read_lock \<Rightarrow>
          (let t2 = call (Group_committer_commit (m_top_ref read_lock)) t1 in
           case group_commit_reply env of
             Some e \<Rightarrow>
               call (Release_read_lock read_lock)
                 (t2\<lparr>m_commit_exception := Some (Thrown e), m_async_commit_has_failed := True\<rparr>)
           | None \<Rightarrow>
               (let t3 = call (Release_read_lock read_lock) t2 in
                case m_oldest_version_not_persisted t3 of
                  Some old \<Rightarrow>
                    (call (Release_read_lock old) t3)\<lparr>m_oldest_version_not_persisted := None\<rparr>
                | None \<Rightarrow> t3)))"

text \<open>
  The closure that \<open>async_complete_writes\<close> hands to the helper thread, with the
  callback \<open>cb\<close> it captured.
\<close>

definition sync_to_disk_job :: "db_replies \<Rightarrow> nat \<Rightarrow> Transaction \<Rightarrow> Transaction" where
  "sync_to_disk_job env cb t =
     (let t1 = (complete_async_commit env t)\<lparr>m_async_stage := Idle\<rparr> in
      if m_waiting_for_sync t1
      then call Notify_all (t1\<lparr>m_waiting_for_sync := False\<rparr>)
      else call (Invoke_callback cb) t1)"

definition async_complete_writes :: "nat \<Rightarrow> Transaction \<Rightarrow> Transaction" where
  "async_complete_writes when_synchronized t =
     (if m_async_stage t = HasLock
      then call Async_end_write (t\<lparr>m_async_stage := Idle\<rparr>)
      else if m_async_stage t = HasCommits
      then call (Async_sync_to_disk when_synchronized)
             (t\<lparr>m_async_stage := Syncing, m_commit_exception := None,
                sync_job := Some when_synchronized\<rparr>)
      else t)"

text \<open>
  \<open>prepare_for_close\<close>. The two waits on the condition variable return only after the
  other party has cleared the flag: for \<open>Syncing\<close> that party is the pending helper
  closure above, which is therefore run here; for \<open>Requesting\<close> it is the lock grant of
  the database handle, which clears \<open>m_waiting_for_write_lock\<close>. A wait with nobody
  left to clear the flag never returns: \<open>None\<close>.
\<close>

definition prepare_for_close :: "db_replies \<Rightarrow> Transaction \<Rightarrow> (error + unit) option \<times> Transaction" where
  "prepare_for_close env t =
     (case m_async_stage t of
        Idle \<Rightarrow> (Some (Inr ()), t\<lparr>m_async_stage := Idle\<rparr>)
      | Requesting \<Rightarrow>
          if m_transact_stage t \<noteq> transact_Reading then (Some (Inl AssertionFailed), t)
          else if m_oldest_version_not_persisted t \<noteq> None then (Some (Inl AssertionFailed), t)
          else (Some (Inr ()),
                (call End_write_on_correct_thread
                   (t\<lparr>m_waiting_for_write_lock := False\<rparr>))\<lparr>m_async_stage := Idle\<rparr>)
      | HasLock \<Rightarrow>
          (let t1 = (if m_transact_stage t = transact_Writing
                     then (call Reset_free_space_tracking t)\<lparr>m_transact_stage := transact_Reading\<rparr>
                     else t);
               t2 = (if m_oldest_version_not_persisted t1 \<noteq> None
                     then complete_async_commit env t1 else t1)
           in (Some (Inr ()), (call End_write_on_correct_thread t2)\<lparr>m_async_stage := Idle\<rparr>))
      | HasCommits \<Rightarrow>
          if m_transact_stage t \<noteq> transact_Reading then (Some (Inl AssertionFailed), t)
          else (Some (Inr ()),
                (call End_write_on_correct_thread
                   (complete_async_commit env t))\<lparr>m_async_stage := Idle\<rparr>)
      | Syncing \<Rightarrow>
          if m_transact_stage t \<noteq> transact_Reading then (Some (Inl AssertionFailed), t)
          else (case sync_job t of
                  None \<Rightarrow> (None, t\<lparr>m_waiting_for_sync := True\<rparr>)
                | Some cb \<Rightarrow>
                    (Some (Inr ()),
                     (sync_to_disk_job env cb
                        (t\<lparr>m_waiting_for_sync := True, sync_job := None\<rparr>))\<lparr>m_async_stage := Idle\<rparr>)))"

text \<open>
  \<open>do_end_read\<close> (declared \<open>noexcept\<close>): drain the coordinator, detach, leak the retained
  lock if there still is one, release the current lock, become \<open>transact_Ready\<close> and drop
  the database handle.
\<close>

definition do_end_read :: "db_replies \<Rightarrow> Transaction \<Rightarrow> (error + unit) option \<times> Transaction" where
  "do_end_read env t =
     (case prepare_for_close env t of
        (None, t') \<Rightarrow> (None, t')
      | (Some (Inl e), t') \<Rightarrow> (Some (Inl e), t')
      | (Some (Inr u), t1) \<Rightarrow>
          (let t2 = (call Detach t1)\<lparr>attached := False\<rparr> in
           if m_oldest_version_not_persisted t2 \<noteq> None \<and> \<not> m_async_commit_has_failed t2
           then (Some (Inl AssertionFailed), t2)
           else
             (let t3 = (case m_oldest_version_not_persisted t2 of
                          Some old \<Rightarrow> call (Leak_read_lock old) t2
                        | None \<Rightarrow> t2);
                  t4 = call (Release_read_lock (m_read_lock t3)) t3
              in (Some (Inr ()), set_transact_stage transact_Ready t4))))"

subsection \<open>The transaction state machine\<close>

definition rollback :: "db_replies \<Rightarrow> Transaction \<Rightarrow> (error + unit) option \<times> Transaction" where
  "rollback env t =
     (if \<not> is_attached t then (Some (Inr ()), t)
      else if m_transact_stage t = transact_Ready then (Some (Inr ()), t)
      else if m_transact_stage t \<noteq> transact_Writing then (Some (Inl WrongTransactionState), t)
      else
        (let t1 = call Reset_free_space_tracking t;
             t2 = (if \<not> holds_write_mutex t1 then call End_write_on_correct_thread t1 else t1)
         in do_end_read env t2))"

definition end_read :: "db_replies \<Rightarrow> Transaction \<Rightarrow> (error + unit) option \<times> Transaction" where
  "end_read env t =
     (if m_transact_stage t = transact_Ready then (Some (Inr ()), t)
      else if m_transact_stage t = transact_Writing then (Some (Inl WrongTransactionState), t)
      else do_end_read env t)"

definition close :: "db_replies \<Rightarrow> Transaction \<Rightarrow> (error + unit) option \<times> Transaction" where
  "close env t =
     (case (if m_transact_stage t = transact_Writing then rollback env t else (Some (Inr ()), t)) of
        (Some (Inr u), t1) \<Rightarrow>
          if m_transact_stage t1 = transact_Reading \<or> m_transact_stage t1 = transact_Frozen
          then do_end_read env t1 else (Some (Inr ()), t1)
      | other \<Rightarrow> other)"

text \<open>
  The body of the \<open>try\<close> block of \<open>commit_and_continue_as_read\<close>, after \<open>do_commit\<close> has
  returned \<open>version\<close>.
\<close>

definition commit_and_continue_as_read_try ::
  "bool \<Rightarrow> nat \<Rightarrow> db_replies \<Rightarrow> Transaction \<Rightarrow> (error + VersionID) \<times> Transaction" where
  "commit_and_continue_as_read_try commit_to_disk version env t =
     (let t1 = call Grab_read_lock t in
      case grab_read_lock_reply env of
        Inl e \<Rightarrow> (Inl (Thrown e), t1)
      | Inr new_read_lock \<Rightarrow>
          (let t2 = set_transact_stage transact_Reading (t1\<lparr>m_history := False\<rparr>);
               t3 = (if commit_to_disk \<or> m_oldest_version_not_persisted t2 \<noteq> None
                     then call (Release_read_lock (m_read_lock t2)) t2
                     else t2\<lparr>m_oldest_version_not_persisted := Some (m_read_lock t2)\<rparr>);
               t4 = (case m_oldest_version_not_persisted t3 of
                       Some old \<Rightarrow>
                         if commit_to_disk
                         then (call (Release_read_lock old) t3)\<lparr>m_oldest_version_not_persisted := None\<rparr>
                         else t3
                     | None \<Rightarrow> t3);
               t5 = t4\<lparr>m_read_lock := new_read_lock\<rparr>
           in
             if (case m_oldest_version_not_persisted t5 of
                   Some old \<Rightarrow> m_version (m_read_lock t5) = m_version old
                 | None \<Rightarrow> False)
             then (Inl AssertionFailed, t5)
             else if m_async_stage t5 = Syncing then (Inl AssertionFailed, t5)
             else
               (let t6 = (if commit_to_disk
                          then (if m_async_stage t5 = Requesting
                                then t5\<lparr>m_async_stage := HasLock\<rparr>
                                else (call End_write_on_correct_thread t5)\<lparr>m_async_stage := Idle\<rparr>)
                          else t5\<lparr>m_async_stage := HasCommits\<rparr>);
                    t7 = call (Remap_and_update_refs (m_top_ref (m_read_lock t6))
                                 (m_file_size (m_read_lock t6)) False) t6
                in case remap_reply env of
                     Some e \<Rightarrow> (Inl (Thrown e), t7)
                   | None \<Rightarrow> (Inr (VersionID version (m_reader_idx new_read_lock)), t7))))"

definition commit_and_continue_as_read ::
  "bool \<Rightarrow> db_replies \<Rightarrow> Transaction \<Rightarrow> (error + VersionID) \<times> Transaction" where
  "commit_and_continue_as_read commit_to_disk env t =
     (if \<not> is_attached t then (Inl StaleAccessor, t)
      else if m_transact_stage t \<noteq> transact_Writing then (Inl WrongTransactionState, t)
      else
        (let t1 = call (Do_commit commit_to_disk) (call Flush_accessors_for_commit t) in
         case do_commit_reply env of
           Inl e \<Rightarrow> (Inl (Thrown e), t1)
         | Inr version \<Rightarrow>
             (case commit_and_continue_as_read_try commit_to_disk version env t1 of
                (Inl e, t2) \<Rightarrow>
                  if e = AssertionFailed then (Inl e, t2)
                  else (Inl e, set_transact_stage transact_Ready t2)
              | (Inr v, t2) \<Rightarrow> (Inr v, t2))))"

definition commit_and_continue_writing ::
  "db_replies \<Rightarrow> Transaction \<Rightarrow> (error + VersionID) \<times> Transaction" where
  "commit_and_continue_writing env t =
     (if \<not> is_attached t then (Inl StaleAccessor, t)
      else if m_transact_stage t \<noteq> transact_Writing then (Inl WrongTransactionState, t)
      else
        (let t1 = call (Do_commit True) (call Flush_accessors_for_commit t) in
         case do_commit_reply env of
           Inl e \<Rightarrow> (Inl (Thrown e), t1)
         | Inr version \<Rightarrow>
             (let t2 = call Grab_read_lock t1 in
              case grab_read_lock_reply env of
                Inl e \<Rightarrow> (Inl (Thrown e), t2)
              | Inr lock_after_commit \<Rightarrow>
                  (let t3 = (call (Release_read_lock (m_read_lock t2)) t2)
                              \<lparr>m_read_lock := lock_after_commit\<rparr>;
                       t4 = (if has_replication env
                             then call (Initiate_transact (m_version lock_after_commit)) t3
                             else t3)
                   in
                     case (if has_replication env then initiate_transact_reply env else None) of
                       Some e \<Rightarrow> (Inl (Thrown e), t4)
                     | None \<Rightarrow>
                       (let t5 = call (Remap_and_update_refs (m_top_ref (m_read_lock t4))
                                         (m_file_size (m_read_lock t4)) True) t4
                        in case remap_reply env of
                             Some e \<Rightarrow> (Inl (Thrown e), t5)
                           | None \<Rightarrow>
                               (Inr (VersionID version (m_reader_idx lock_after_commit)), t5))))))"

text \<open>
  \<open>commit\<close>: the collaborators answer \<open>env\<close> to the publication step and \<open>env_close\<close> to
  the final \<open>do_end_read\<close>.
\<close>

definition commit ::
  "db_replies \<Rightarrow> db_replies \<Rightarrow> Transaction \<Rightarrow> (error + nat) option \<times> Transaction" where
  "commit env env_close t =
     (if \<not> is_attached t then (Some (Inl StaleAccessor), t)
      else if m_transact_stage t \<noteq> transact_Writing then (Some (Inl WrongTransactionState), t)
      else
        (let t1 = call (Do_commit True) (call Flush_accessors_for_commit t) in
         case do_commit_reply env of
           Inl e \<Rightarrow> (Some (Inl (Thrown e)), t1)
         | Inr new_version \<Rightarrow>
             (let t2 = call Grab_read_lock t1 in
              case grab_read_lock_reply env of
                Inl e \<Rightarrow> (Some (Inl (Thrown e)), t2)
              | Inr lock_after_commit \<Rightarrow>
                  (let t3 = call End_write_on_correct_thread
                              (call (Release_read_lock lock_after_commit) t2)
                   in case do_end_read env_close t3 of
                        (Some (Inr u), t4) \<Rightarrow>
                          (Some (Inr new_version), t4\<lparr>m_read_lock := lock_after_commit\<rparr>)
                      | (Some (Inl e), t4) \<Rightarrow> (Some (Inl e), t4)
                      | (None, t4) \<Rightarrow> (None, t4)))))"

subsection \<open>Handles made by the database\<close>

text \<open>
  Modelled from the spec: \<open>DB::grab_read_lock\<close>, \<open>DB::start_read\<close> and \<open>DB::start_frozen\<close>
  are defined in db.cpp, which is not among the sources. Section 4.1: \<open>grab(kind,
  version)\<close> pins the requested version and ``fails only if the handle is already torn
  down''; a ReadLock is the registry's tuple (version, root offset, file size, slot
  index, kind). Section 4.2: \<open>begin_read\<close> pins a read lock and yields a Reading
  Transaction; \<open>freeze\<close> yields a Transaction in Frozen state pinned at the same version.
  The new handle is built by the constructor of this file.
\<close>

record db_handle =
  torn_down :: "nat option"
  root_offset_of :: "nat \<Rightarrow> nat"
  file_size_of :: "nat \<Rightarrow> nat"

definition grab_read_lock :: "db_handle \<Rightarrow> LockType \<Rightarrow> VersionID \<Rightarrow> error + ReadLockInfo" where
  "grab_read_lock db kind v =
     (case v of VersionID ver idx \<Rightarrow>
        (case torn_down db of
           Some e \<Rightarrow> Inl (Thrown e)
         | None \<Rightarrow>
             Inr \<lparr>m_version = ver, m_reader_idx = idx, m_top_ref = root_offset_of db ver,
                  m_file_size = file_size_of db ver, m_type = kind\<rparr>))"

definition start_read :: "db_handle \<Rightarrow> VersionID \<Rightarrow> error + Transaction" where
  "start_read db v =
     (case grab_read_lock db Live v of
        Inl e \<Rightarrow> Inl e
      | Inr rli \<Rightarrow> Inr (Transaction_ctor rli transact_Reading))"

definition start_frozen :: "db_handle \<Rightarrow> VersionID \<Rightarrow> error + Transaction" where
  "start_frozen db v =
     (case grab_read_lock db Frozen v of
        Inl e \<Rightarrow> Inl e
      | Inr rli \<Rightarrow> Inr (Transaction_ctor rli transact_Frozen))"

definition freeze :: "db_handle \<Rightarrow> Transaction \<Rightarrow> error + Transaction" where
  "freeze db t =
     (if m_transact_stage t \<noteq> transact_Reading then Inl WrongTransactionState
      else start_frozen db (VersionID (m_version (m_read_lock t)) (m_reader_idx (m_read_lock t))))"

definition duplicate :: "db_handle \<Rightarrow> Transaction \<Rightarrow> error + Transaction" where
  "duplicate db t =
     (let version = VersionID (m_version (m_read_lock t)) (m_reader_idx (m_read_lock t)) in
      case m_transact_stage t of
        transact_Ready \<Rightarrow> Inl WrongTransactionState
      | transact_Reading \<Rightarrow> start_read db version
      | transact_Frozen \<Rightarrow> start_frozen db version
      | transact_Writing \<Rightarrow>
          if get_commit_size t \<noteq> 0 then Inl WrongTransactionState
          else start_read db version)"

section \<open>The outlier compactor: \<open>NodeTree::trv\<close> and \<open>Transaction::cow_outliers\<close>\<close>

text \<open>
  An \<open>Array\<close> accessor as the walk sees it: whether its memory is read-only, its ref,
  its byte size, whether it holds refs, and its elements. Each element is the raw
  64-bit value \<open>get(ndx)\<close> returns, paired with the array that
  \<open>set_parent(&current_node, ndx); init_from_parent()\<close> attaches at that slot (looked at
  only when the value is a ref). The walk reads every slot before any copy made below
  that slot can rewrite it, so the tree is read as it was when the walk began.
\<close>

datatype node =
  Node (is_read_only: bool) (get_ref: "64 word") (get_byte_size: "64 word")
       (has_refs: bool) (elems: "(64 word \<times> node) list")

text \<open>The calls made on the arrays, in order (\<open>copy_on_write\<close> is the effect).\<close>

datatype array_call = Is_read_only "64 word" | Copy_on_write "64 word"

text \<open>
  The members of \<open>NodeTree\<close> (\<open>m_work_limit\<close> is an \<open>int64_t\<close>, read with \<open>sint\<close>),
  together with the \<open>progress\<close> vector passed by reference and the log of array calls.
\<close>

record NodeTree =
  m_evac_limit :: "64 word"
  m_work_limit :: "64 word"
  m_moved :: "64 word"
  progress :: "nat list"
  array_calls :: "array_call list"

text \<open>The first half of \<open>trv\<close>: copy a read-only node that ends above the limit.\<close>

definition visit :: "node \<Rightarrow> NodeTree \<Rightarrow> NodeTree" where
  "visit current_node w =
     (let w1 = w\<lparr>array_calls := array_calls w @ [Is_read_only (get_ref current_node)]\<rparr> in
      if is_read_only current_node then
        (let byte_size = get_byte_size current_node in
         if get_ref current_node + byte_size > m_evac_limit w1
         then w1\<lparr>array_calls := array_calls w1 @ [Copy_on_write (get_ref current_node)],
                 m_moved := m_moved w1 + 1,
                 m_work_limit := m_work_limit w1 - byte_size\<rparr>
         else w1)
      else w1)"

text \<open>Entering a node with refs: charge its size and open a level of \<open>progress\<close>.\<close>

definition enter_refs :: "node \<Rightarrow> nat \<Rightarrow> NodeTree \<Rightarrow> NodeTree" where
  "enter_refs current_node level w =
     (let w1 = w\<lparr>m_work_limit := m_work_limit w - of_nat (length (elems current_node))\<rparr> in
      if length (progress w1) = level then w1\<lparr>progress := progress w1 @ [0]\<rparr> else w1)"

text \<open>\<open>++progress[level]\<close>.\<close>

definition advance :: "nat \<Rightarrow> NodeTree \<Rightarrow> NodeTree" where
  "advance level w = w\<lparr>progress := (progress w)[level := progress w ! level + 1]\<rparr>"

text \<open>
  \<open>trv\<close>, and its \<open>while (ndx < sz)\<close> loop as \<open>trv_loop\<close>: \<open>ndx\<close> is always the value
  of \<open>progress[level]\<close>, read again after each increment. The result is the returned
  \<open>bool\<close>, or the failure.
\<close>

function trv :: "node \<Rightarrow> nat \<Rightarrow> NodeTree \<Rightarrow> (error + bool) \<times> NodeTree"
  and trv_loop :: "node \<Rightarrow> nat \<Rightarrow> NodeTree \<Rightarrow> (error + bool) \<times> NodeTree" where
  "trv current_node level w =
     (if sint (m_work_limit w) < 0 then (Inr False, w)
      else
        (let w1 = visit current_node w in
         if has_refs current_node then
           (let w2 = enter_refs current_node level w1 in
            if \<not> level < length (progress w2) then (Inl AssertionFailed, w2)
            else trv_loop current_node level w2)
         else (Inr True, w1)))"
| "trv_loop current_node level w =
     (if \<not> level < length (progress w) then (Inl OutOfBounds, w)
      else
        (let ndx = progress w ! level in
         if ndx < length (elems current_node) then
           (let val = fst (elems current_node ! ndx); arr = snd (elems current_node ! ndx) in
            if val \<noteq> 0 \<and> val AND 1 = 0 then
              (case trv arr (level + 1) w of
                 (r, w') \<Rightarrow>
                   if r = Inr True then trv_loop current_node level (advance level w')
                   else (r, w'))
            else trv_loop current_node level (advance level w))
         else (Inr True, w\<lparr>progress := take level (progress w)\<rparr>)))"
  by pat_completeness auto

text \<open>
  Termination. A child's walk leaves the levels above it alone, so \<open>progress[level]\<close>
  grows by one with every turn of the loop; this is shown first for the arguments on
  which the walk is known to return.
\<close>

lemma progress_visit [simp]: "progress (visit n w) = progress w"
  by (simp add: visit_def Let_def)

lemma progress_enter_refs:
  "progress (enter_refs n level w) =
     (if length (progress w) = level then progress w @ [0] else progress w)"
  by (simp add: enter_refs_def Let_def)

lemma progress_advance:
  "progress (advance level w) = (progress w)[level := progress w ! level + 1]"
  by (simp add: advance_def)

lemma take_Suc_eq_imp:
  assumes "take (Suc l) xs = take (Suc l) ys"
  shows "take l xs = take l ys"
proof -
  have "take l (take (Suc l) xs) = take l (take (Suc l) ys)" using assms by simp
  then show ?thesis by (simp add: min_def)
qed

lemma trv_prefix_partial:
  "trv_trv_loop_dom (Inl (n, level, w)) \<Longrightarrow> level \<le> length (progress w) \<Longrightarrow>
     take level (progress (snd (trv n level w))) = take level (progress w)
     \<and> level \<le> length (progress (snd (trv n level w)))"
  "trv_trv_loop_dom (Inr (n, level, w)) \<Longrightarrow> level < length (progress w) \<Longrightarrow>
     take level (progress (snd (trv_loop n level w))) = take level (progress w)
     \<and> level \<le> length (progress (snd (trv_loop n level w)))"
proof (induction n level w and n level w rule: trv_trv_loop.pinduct)
  case (1 n level w)
  show ?case
  proof (cases "sint (m_work_limit w) < 0")
    case True
    then show ?thesis using 1(1,3) by (simp add: trv.psimps)
  next
    case neg: False
    show ?thesis
    proof (cases "has_refs n")
      case False
      then show ?thesis using neg 1(1,3) by (simp add: trv.psimps Let_def)
    next
      case refs: True
      let ?w2 = "enter_refs n level (visit n w)"
      have p2: "progress ?w2 = (if length (progress w) = level then progress w @ [0] else progress w)"
        by (simp add: progress_enter_refs)
      show ?thesis
      proof (cases "level < length (progress ?w2)")
        case False
        then show ?thesis using neg refs 1(1,3) p2
          by (simp add: trv.psimps Let_def split: if_splits)
      next
        case True
        have eq: "trv n level w = trv_loop n level ?w2"
          using neg refs True 1(1) by (simp add: trv.psimps Let_def)
        have ih: "take level (progress (snd (trv_loop n level ?w2))) = take level (progress ?w2)
            \<and> level \<le> length (progress (snd (trv_loop n level ?w2)))"
          using 1(2)[OF neg refl refs refl] True by simp
        have "take level (progress ?w2) = take level (progress w)"
          using p2 1(3) by (simp split: if_splits)
        then show ?thesis using eq ih by simp
      qed
    qed
  qed
next
  case (2 n level w)
  note dom = 2(1) and lt = 2(5)
  let ?ndx = "progress w ! level"
  show ?case
  proof (cases "?ndx < length (elems n)")
    case False
    then show ?thesis using dom lt by (simp add: trv_loop.psimps Let_def)
  next
    case inb: True
    let ?val = "fst (elems n ! ?ndx)" and ?arr = "snd (elems n ! ?ndx)"
    show ?thesis
    proof (cases "?val \<noteq> 0 \<and> ?val AND 1 = 0")
      case False
      have eq: "trv_loop n level w = trv_loop n level (advance level w)"
        using dom lt inb False by (auto simp: trv_loop.psimps Let_def)
      have "take level (progress (snd (trv_loop n level (advance level w))))
              = take level (progress (advance level w))
            \<and> level \<le> length (progress (snd (trv_loop n level (advance level w))))"
        using 2(4)[OF _ refl inb refl refl False] lt by (simp add: progress_advance)
      then show ?thesis using eq by (simp add: progress_advance)
    next
      case isref: True
      obtain r w' where child: "trv ?arr (level + 1) w = (r, w')"
        by (cases "trv ?arr (level + 1) w")
      have ih1: "take (level + 1) (progress w') = take (level + 1) (progress w)
                 \<and> level + 1 \<le> length (progress w')"
        using 2(2)[OF _ refl inb refl refl isref] lt child by simp
      then have pre: "take level (progress w') = take level (progress w)"
        using take_Suc_eq_imp[of level "progress w'" "progress w"] by simp
      show ?thesis
      proof (cases "r = Inr True")
        case False
        have "trv_loop n level w = (r, w')"
          using dom lt inb isref child False by (simp add: trv_loop.psimps Let_def)
        then show ?thesis using pre ih1 by simp
      next
        case True
        have eq: "trv_loop n level w = trv_loop n level (advance level w')"
          using dom lt inb isref child True by (simp add: trv_loop.psimps Let_def)
        have "take level (progress (snd (trv_loop n level (advance level w'))))
                = take level (progress (advance level w'))
              \<and> level \<le> length (progress (snd (trv_loop n level (advance level w'))))"
          using 2(3)[OF _ refl inb refl refl isref child[symmetric] True] ih1 lt
          by (simp add: progress_advance)
        then show ?thesis using eq pre by (simp add: progress_advance)
      qed
    qed
  qed
qed

definition trv_rank :: "node \<times> nat \<times> NodeTree + node \<times> nat \<times> NodeTree \<Rightarrow> nat \<times> nat \<times> nat" where
  "trv_rank x =
     (case x of
        Inl (n, level, w) \<Rightarrow> (size n, 1, 0)
      | Inr (n, level, w) \<Rightarrow> (size n, 0, length (elems n) - progress w ! level))"

lemma size_elem: "i < length (elems n) \<Longrightarrow> size (snd (elems n ! i)) < size n"
proof (cases n)
  case (Node ro r b h es)
  assume "i < length (elems n)"
  then have mem: "es ! i \<in> set es" using Node by simp
  have "size (snd (es ! i)) \<le> size_prod (\<lambda>_. 0) size (es ! i)"
    by (cases "es ! i") simp
  also have "\<dots> \<le> size_list (size_prod (\<lambda>_. 0) size) es"
    using mem by (rule size_list_estimation') simp
  finally show ?thesis using Node by simp
qed

termination trv
proof (relation "inv_image (less_than <*lex*> less_than <*lex*> less_than) trv_rank")
  show "wf (inv_image (less_than <*lex*> less_than <*lex*> less_than) trv_rank)"
    by (intro wf_inv_image wf_lex_prod wf_less_than)
next
  fix current_node :: node and level :: nat and w x xa :: NodeTree
  show "(Inr (current_node, level, xa), Inl (current_node, level, w))
        \<in> inv_image (less_than <*lex*> less_than <*lex*> less_than) trv_rank"
    by (simp add: trv_rank_def)
next
  fix current_node :: node and level :: nat and w :: NodeTree and x :: nat and xb :: node
  assume "x = progress w ! level" "x < length (elems current_node)"
    "xb = snd (elems current_node ! x)"
  then show "(Inl (xb, level + 1, w), Inr (current_node, level, w))
        \<in> inv_image (less_than <*lex*> less_than <*lex*> less_than) trv_rank"
    by (simp add: trv_rank_def size_elem)
next
  fix current_node :: node and level :: nat and w :: NodeTree and x :: nat and xb :: node
    and xc :: "error + bool" and y :: NodeTree
  assume lt: "\<not> \<not> level < length (progress w)"
    and x: "x = progress w ! level" and inb: "x < length (elems current_node)"
    and res: "(xc, y) = trv xb (level + 1) w"
    and dom: "trv_trv_loop_dom (Inl (xb, level + 1, w))"
  have "take (level + 1) (progress y) = take (level + 1) (progress w)
        \<and> level + 1 \<le> length (progress y)"
    using trv_prefix_partial(1)[OF dom] lt res[symmetric] by simp
  then have "progress y ! level = progress w ! level" and "level < length (progress y)"
    by (metis Suc_eq_plus1 lessI nth_take, simp)
  then show "(Inr (current_node, level, advance level y), Inr (current_node, level, w))
        \<in> inv_image (less_than <*lex*> less_than <*lex*> less_than) trv_rank"
    using x inb by (simp add: trv_rank_def progress_advance)
next
  fix current_node :: node and level :: nat and w :: NodeTree and x :: nat
  assume "\<not> \<not> level < length (progress w)" "x = progress w ! level"
    "x < length (elems current_node)"
  then show "(Inr (current_node, level, advance level w), Inr (current_node, level, w))
        \<in> inv_image (less_than <*lex*> less_than <*lex*> less_than) trv_rank"
    by (simp add: trv_rank_def progress_advance)
qed

declare trv.simps [simp del] trv_loop.simps [simp del]

text \<open>
  The part of \<open>Group\<close> the walk starts from: the table-name array, the table-ref array
  and the top array, and the three slot numbers of the top array, which are constants
  of group.hpp (not among the sources) and therefore parameters here.
\<close>

record Group =
  m_table_names :: node
  m_tables :: node
  m_top :: node
  s_table_name_ndx :: nat
  s_table_refs_ndx :: nat
  s_hist_ref_ndx :: nat

text \<open>How a call of \<open>cow_outliers\<close> ends: at \<open>progress.clear()\<close>, at one of the early
  \<open>return\<close>s, or in a failure.\<close>

datatype walk_end = Completed | Interrupted | Failed error

text \<open>\<open>progress.back() = v\<close>.\<close>

definition set_back :: "nat \<Rightarrow> NodeTree \<Rightarrow> NodeTree" where
  "set_back v w = w\<lparr>progress := (progress w)[length (progress w) - 1 := v]\<rparr>"

text \<open>The third \<open>if\<close> of \<open>cow_outliers\<close> and the final \<open>progress.clear()\<close>.\<close>

definition cow_outliers_hist :: "Group \<Rightarrow> NodeTree \<Rightarrow> walk_end \<times> NodeTree" where
  "cow_outliers_hist g w =
     (if progress w = [] then (Failed OutOfBounds, w)
      else if progress w ! 0 = s_hist_ref_ndx g then
        (if \<not> s_hist_ref_ndx g < length (elems (m_top g)) then (Failed OutOfBounds, w)
         else if fst (elems (m_top g) ! s_hist_ref_ndx g) \<noteq> 0 then
           (case trv (snd (elems (m_top g) ! s_hist_ref_ndx g)) 1 w of
              (Inr True, w') \<Rightarrow> (Completed, w'\<lparr>progress := []\<rparr>)
            | (Inr False, w') \<Rightarrow> (Interrupted, w')
            | (Inl e, w') \<Rightarrow> (Failed e, w'))
         else (Completed, w\<lparr>progress := []\<rparr>))
      else (Completed, w\<lparr>progress := []\<rparr>))"

text \<open>The second \<open>if\<close> and what follows it.\<close>

definition cow_outliers_tables :: "Group \<Rightarrow> NodeTree \<Rightarrow> walk_end \<times> NodeTree" where
  "cow_outliers_tables g w =
     (if progress w = [] then (Failed OutOfBounds, w)
      else if progress w ! 0 = s_table_refs_ndx g then
        (case trv (m_tables g) 1 w of
           (Inr True, w') \<Rightarrow>
             if progress w' = [] then (Failed OutOfBounds, w')
             else cow_outliers_hist g (set_back (s_hist_ref_ndx g) w')
         | (Inr False, w') \<Rightarrow> (Interrupted, w')
         | (Inl e, w') \<Rightarrow> (Failed e, w'))
      else cow_outliers_hist g w)"

text \<open>
  \<open>cow_outliers(progress, evac_limit, work_limit)\<close>: \<open>work_limit\<close> is a \<open>size_t\<close> that the
  \<open>NodeTree\<close> constructor casts to \<open>int64_t\<close>, keeping its 64 bits.
\<close>

definition cow_outliers ::
  "Group \<Rightarrow> nat list \<Rightarrow> 64 word \<Rightarrow> 64 word \<Rightarrow> walk_end \<times> NodeTree" where
  "cow_outliers g progress0 evac_limit work_limit =
     (let node_tree = \<lparr>m_evac_limit = evac_limit, m_work_limit = work_limit, m_moved = 0,
                       progress = progress0, array_calls = []\<rparr>;
          w = (if progress node_tree = []
               then node_tree\<lparr>progress := [s_table_name_ndx g]\<rparr> else node_tree)
      in
        if progress w ! 0 = s_table_name_ndx g then
          (case trv (m_table_names g) 1 w of
             (Inr True, w') \<Rightarrow>
               if progress w' = [] then (Failed OutOfBounds, w')
               else cow_outliers_tables g (set_back (s_table_refs_ndx g) w')
           | (Inr False, w') \<Rightarrow> (Interrupted, w')
           | (Inl e, w') \<Rightarrow> (Failed e, w'))
        else cow_outliers_tables g w)"

section \<open>Copying a transaction through a replication sink: \<open>Transaction::replicate\<close>\<close>

text \<open>
  Modelled from the spec: the classes \<open>Table\<close>, \<open>Obj\<close>, \<open>Mixed\<close>, \<open>ColKey\<close>, the collection
  accessors and the \<open>Replication\<close> sink are declared outside the sources. Section 4.2
  has \<open>replicate\<close> copy the ``externally visible tables'' as classes, columns and
  ``objects with their scalar and collection properties (recursing into nested
  collections held inside dynamically-typed fields)''. They are modelled as the data
  that \<open>replicate\<close> and its helpers in this file read from them, each accessor the code
  calls being a field of that data or a lookup in it, and the sink as the log of the
  calls made on it with their arguments. A \<open>ColKey\<close> carries the column's index, its
  type, whether it is nullable and which kind of collection it holds.
\<close>

datatype CollectionType = CT_List | CT_Dictionary

datatype table_type = TopLevel | Embedded | TopLevelAsymmetric

record ColKey =
  col_idx :: nat
  col_type :: nat
  col_nullable :: bool
  col_is_list :: bool
  col_is_set :: bool
  col_is_dictionary :: bool

text \<open>
  A \<open>Mixed\<close> value: null, a scalar, a link, a list or a dictionary. A link is read
  with its key and with what \<open>get_object\<close> finds under that key in the target table
  (\<open>None\<close> when the table holds no such object). An \<open>Obj\<close> is its table key, its
  object key and one value for each column of its table, in the order of the columns;
  the value of a list or set column is the list of its elements, that of a dictionary
  column the list of its pairs (a value of another shape in such a column reads as
  the empty collection).
\<close>

datatype mixed =
    M_null
  | M_scalar nat
  | M_link nat "obj option"
  | M_list "mixed list"
  | M_dict "(string \<times> mixed) list"
and obj = Obj nat nat "mixed list"

text \<open>
  What the sink is given for a value: the value itself, or \<open>Mixed{0, CollectionType}\<close>
  in place of a collection.
\<close>

datatype sink_value = SV_null | SV_scalar nat | SV_link nat | SV_collection CollectionType

fun to_sink :: "mixed \<Rightarrow> sink_value" where
  "to_sink M_null = SV_null"
| "to_sink (M_scalar n) = SV_scalar n"
| "to_sink (M_link k target) = SV_link k"
| "to_sink (M_list xs) = SV_collection CT_List"
| "to_sink (M_dict kvs) = SV_collection CT_Dictionary"

text \<open>
  A collection accessor: table key, object key, column index and the path from the
  column down to the collection. \<open>sub\<close> is \<open>get_list({n})\<close> and \<open>get_dictionary({key})\<close>.
\<close>

datatype path_elem = Index nat | Key string

datatype coll = Coll nat nat nat "path_elem list"

fun sub :: "coll \<Rightarrow> path_elem \<Rightarrow> coll" where
  "sub (Coll tk k c path) p = Coll tk k c (path @ [p])"

text \<open>
  The calls \<open>replicate\<close> makes, in order: those on the \<open>Replication\<close> sink with their
  arguments (a table is passed as its key), and \<open>commit_and_continue_writing\<close> on the
  destination transaction, which is taken to be a write transaction that accepts
  each commit.
\<close>

datatype repl_call =
    Add_class_with_primary_key nat string nat string bool table_type
  | Add_class nat string table_type
  | Insert_column nat ColKey nat string "nat option"
  | Create_object_with_primary_key nat nat sink_value
  | Repl_set nat ColKey nat sink_value
  | List_clear coll
  | List_insert coll nat sink_value nat
  | Set_insert coll nat sink_value
  | Dictionary_insert coll nat string sink_value
  | Commit_and_continue_writing

text \<open>
  A column and a table as \<open>replicate\<close> queries them. \<open>col_opposite\<close> is the key of the
  table a link column points to. \<open>tbl_public\<close> is the answer of \<open>table_is_public\<close> and
  \<open>tbl_class_name\<close> that of \<open>Group::table_name_to_class_name\<close>; both functions are
  defined outside this file. \<open>tbl_primary_key\<close> is \<open>get_primary_key_column\<close>, \<open>None\<close>
  for the null column key.
\<close>

record column =
  col_key :: ColKey
  col_name :: string
  col_opposite :: "nat option"

record Table =
  tbl_key :: nat
  tbl_name :: string
  tbl_class_name :: string
  tbl_public :: bool
  tbl_type :: table_type
  tbl_primary_key :: "column option"
  tbl_columns :: "column list"
  tbl_objects :: "obj list"

definition is_embedded :: "Table \<Rightarrow> bool" where
  "is_embedded t = (tbl_type t = Embedded)"

text \<open>
  The calls made so far, and the exception that stopped them if one did. \<open>seq\<close> runs
  its second argument only when the first has not thrown.
\<close>

type_synonym out = "repl_call list \<times> error option"

fun seq :: "out \<Rightarrow> out \<Rightarrow> out" where
  "seq (cs, Some e) later = (cs, Some e)"
| "seq (cs, None) (ds, r) = (cs @ ds, r)"

text \<open>\<open>Table::get_opposite_table\<close>, looked up among the tables \<open>S\<close> of the group.\<close>

definition get_opposite_table :: "Table list \<Rightarrow> column \<Rightarrow> Table option" where
  "get_opposite_table S c =
     (case col_opposite c of
        None \<Rightarrow> None
      | Some k \<Rightarrow> find (\<lambda>t. tbl_key t = k) S)"

type_synonym ColInfo = "(ColKey \<times> Table option) list"

definition get_col_info :: "Table list \<Rightarrow> Table option \<Rightarrow> ColInfo" where
  "get_col_info S table =
     (case table of
        None \<Rightarrow> []
      | Some t \<Rightarrow>
          map (\<lambda>c. (col_key c,
                     case get_opposite_table S c of
                       Some target_table \<Rightarrow> if is_embedded target_table then Some target_table else None
                     | None \<Rightarrow> None))
              (tbl_columns t))"

text \<open>
  \<open>add_list_to_repl\<close> and \<open>add_dictionary_to_repl\<close> from position \<open>n\<close> on, the lambda
  \<open>update_embedded\<close> (\<open>None\<close> is \<open>nullptr\<close>), \<open>generate_properties_for_obj\<close>, and its loop
  over the columns, which \<open>generate_properties\<close> runs over the columns paired with the
  object's values.
\<close>

function (sequential)
      add_list_items :: "Table list \<Rightarrow> coll \<Rightarrow> nat \<Rightarrow> mixed list \<Rightarrow> Table option \<Rightarrow> out"
  and add_dict_items :: "Table list \<Rightarrow> coll \<Rightarrow> nat \<Rightarrow> (string \<times> mixed) list \<Rightarrow> Table option \<Rightarrow> out"
  and update_embedded :: "Table list \<Rightarrow> Table option \<Rightarrow> mixed \<Rightarrow> out"
  and generate_properties_for_obj :: "Table list \<Rightarrow> obj \<Rightarrow> ColInfo \<Rightarrow> out"
  and generate_properties :: "Table list \<Rightarrow> nat \<Rightarrow> nat \<Rightarrow> ColInfo \<Rightarrow> mixed list \<Rightarrow> out" where
  "add_list_items S list n [] emb = ([], None)"
| "add_list_items S list n (val # rest) emb =
     seq (case val of
            M_list xs \<Rightarrow>
              seq ([List_insert list n (SV_collection CT_List) n], None)
                  (add_list_items S (sub list (Index n)) 0 xs None)
          | M_dict kvs \<Rightarrow>
              seq ([List_insert list n (SV_collection CT_Dictionary) n], None)
                  (add_dict_items S (sub list (Index n)) 0 kvs None)
          | _ \<Rightarrow>
              seq ([List_insert list n (to_sink val) n], None) (update_embedded S emb val))
         (add_list_items S list (Suc n) rest emb)"
| "add_dict_items S dict n [] emb = ([], None)"
| "add_dict_items S dict n ((key, val) # rest) emb =
     seq (case val of
            M_list xs \<Rightarrow>
              seq ([Dictionary_insert dict n key (SV_collection CT_List)], None)
                  (add_list_items S (sub dict (Key key)) 0 xs None)
          | M_dict kvs \<Rightarrow>
              seq ([Dictionary_insert dict n key (SV_collection CT_Dictionary)], None)
                  (add_dict_items S (sub dict (Key key)) 0 kvs None)
          | _ \<Rightarrow>
              seq ([Dictionary_insert dict n key (to_sink val)], None) (update_embedded S emb val))
         (add_dict_items S dict (Suc n) rest emb)"
| "update_embedded S None val = ([], None)"
| "update_embedded S (Some embedded_table) M_null = ([], None)"
| "update_embedded S (Some embedded_table) (M_link k (Some embedded_obj)) =
     generate_properties_for_obj S embedded_obj (get_col_info S (Some embedded_table))"
| "update_embedded S (Some embedded_table) (M_link k None) = ([], Some KeyNotFound)"
| "update_embedded S (Some embedded_table) (M_scalar v) = ([], Some AssertionFailed)"
| "update_embedded S (Some embedded_table) (M_list xs) = ([], Some AssertionFailed)"
| "update_embedded S (Some embedded_table) (M_dict kvs) = ([], Some AssertionFailed)"
| "generate_properties_for_obj S (Obj tk k vals) cols = generate_properties S tk k cols vals"
| "generate_properties S tk k [] vals = ([], None)"
| "generate_properties S tk k ((col, embedded_table) # cols) [] = ([], None)"
| "generate_properties S tk k ((col, embedded_table) # cols) (val # vals) =
     seq (if col_is_list col then
            seq ([List_clear (Coll tk k (col_idx col) [])], None)
                (case val of
                   M_list xs \<Rightarrow> add_list_items S (Coll tk k (col_idx col) []) 0 xs embedded_table
                 | _ \<Rightarrow> ([], None))
          else if col_is_set col then
            (case val of
               M_list xs \<Rightarrow>
                 (map (\<lambda>(n, x). Set_insert (Coll tk k (col_idx col) []) n (to_sink x))
                      (zip [0 ..< length xs] xs), None)
             | _ \<Rightarrow> ([], None))
          else if col_is_dictionary col then
            (case val of
               M_dict kvs \<Rightarrow> add_dict_items S (Coll tk k (col_idx col) []) 0 kvs embedded_table
             | _ \<Rightarrow> ([], None))
          else
            (case val of
               M_list xs \<Rightarrow>
                 seq ([Repl_set tk col k (SV_collection CT_List)], None)
                     (add_list_items S (Coll tk k (col_idx col) []) 0 xs embedded_table)
             | M_dict kvs \<Rightarrow>
                 seq ([Repl_set tk col k (SV_collection CT_Dictionary)], None)
                     (add_dict_items S (Coll tk k (col_idx col) []) 0 kvs embedded_table)
             | _ \<Rightarrow>
                 seq ([Repl_set tk col k (to_sink val)], None)
                     (update_embedded S embedded_table val)))
         (generate_properties S tk k cols vals)"
  by pat_completeness auto

termination
  by (relation "measure (\<lambda>x. case x of
       Inl (Inl (S, list, n, xs, emb)) \<Rightarrow> size_list size xs
     | Inl (Inr (S, dict, n, kvs, emb)) \<Rightarrow> size_list (size_prod (\<lambda>_. 0) size) kvs
     | Inr (Inl (S, emb, val)) \<Rightarrow> size val
     | Inr (Inr (Inl (S, ob, cols))) \<Rightarrow> size ob
     | Inr (Inr (Inr (S, tk, k, cols, vals))) \<Rightarrow> size_list size vals)") auto

text \<open>\<open>Obj::get_any(col)\<close> and \<open>Obj::get_key()\<close>.\<close>

definition get_any :: "Table \<Rightarrow> obj \<Rightarrow> ColKey \<Rightarrow> mixed" where
  "get_any t ob col =
     (case ob of Obj tk k vals \<Rightarrow>
        (case map_of (zip (map col_key (tbl_columns t)) vals) col of
           Some v \<Rightarrow> v
         | None \<Rightarrow> M_null))"

fun get_key :: "obj \<Rightarrow> nat" where
  "get_key (Obj tk k vals) = k"

text \<open>The constant of \<open>replicate\<close>; the argument says whether \<open>REALM_DEBUG\<close> is defined.\<close>

definition number_of_objects_to_create_before_committing :: "bool \<Rightarrow> int" where
  "number_of_objects_to_create_before_committing realm_debug =
     (if realm_debug then 100 else 1000)"

text \<open>The loop under \<open>// Create tables\<close>, over the public tables.\<close>

fun create_tables :: "Table list \<Rightarrow> out" where
  "create_tables [] = ([], None)"
| "create_tables (table # later) =
     (if \<not> is_embedded table then
        (case tbl_primary_key table of
           None \<Rightarrow> ([], Some (Missing_primary_key (tbl_class_name table)))
         | Some pk_col \<Rightarrow>
             if col_name pk_col \<noteq> ''_id''
             then ([], Some (Primary_key_not_named_id (tbl_class_name table) (col_name pk_col)))
             else seq ([Add_class_with_primary_key (tbl_key table) (tbl_name table)
                          (col_type (col_key pk_col)) (col_name pk_col)
                          (col_nullable (col_key pk_col)) (tbl_type table)], None)
                      (create_tables later))
      else seq ([Add_class (tbl_key table) (tbl_name table) Embedded], None)
               (create_tables later))"

text \<open>
  The two nested \<open>for\<close> statements under \<open>// Create columns\<close>: the inner one over
  the columns of a table.
\<close>

fun insert_columns :: "Table list \<Rightarrow> Table \<Rightarrow> column list \<Rightarrow> repl_call list" where
  "insert_columns S table [] = []"
| "insert_columns S table (col # cols) =
     (if Some (col_key col) = map_option col_key (tbl_primary_key table)
      then insert_columns S table cols
      else Insert_column (tbl_key table) (col_key col) (col_type (col_key col)) (col_name col)
             (map_option tbl_key (get_opposite_table S col))
           # insert_columns S table cols)"

fun create_columns :: "Table list \<Rightarrow> Table list \<Rightarrow> repl_call list" where
  "create_columns S [] = []"
| "create_columns S (table # later) =
     insert_columns S table (tbl_columns table) @ create_columns S later"

text \<open>
  The two nested \<open>for\<close> statements that create the objects: the inner one over the
  objects of a table, with the counter \<open>n\<close> going in and coming out (\<open>--n == 0\<close> commits and resets it to
  \<open>batch\<close>), the outer one over the public tables, skipping the embedded ones.
\<close>

fun create_objects_of ::
  "Table list \<Rightarrow> int \<Rightarrow> Table \<Rightarrow> ColInfo \<Rightarrow> obj list \<Rightarrow> int \<Rightarrow> out \<times> int" where
  "create_objects_of S batch table cols [] n = (([], None), n)"
| "create_objects_of S batch table cols (ob # later) n =
     (let pk = (case tbl_primary_key table of
                  Some pk_col \<Rightarrow> get_any table ob (col_key pk_col)
                | None \<Rightarrow> M_null)
      in case seq ([Create_object_with_primary_key (tbl_key table) (get_key ob) (to_sink pk)], None)
                  (generate_properties_for_obj S ob cols) of
           (cs, Some e) \<Rightarrow> ((cs, Some e), n)
         | (cs, None) \<Rightarrow>
             if n - 1 = 0
             then (case create_objects_of S batch table cols later batch of
                     (rest, n') \<Rightarrow> (seq (cs @ [Commit_and_continue_writing], None) rest, n'))
             else (case create_objects_of S batch table cols later (n - 1) of
                     (rest, n') \<Rightarrow> (seq (cs, None) rest, n')))"

fun create_objects :: "Table list \<Rightarrow> int \<Rightarrow> Table list \<Rightarrow> int \<Rightarrow> out" where
  "create_objects S batch [] n = ([], None)"
| "create_objects S batch (table # later) n =
     (if is_embedded table then create_objects S batch later n
      else
        (case create_objects_of S batch table (get_col_info S (Some table))
                (tbl_objects table) n of
           ((cs, Some e), n') \<Rightarrow> (cs, Some e)
         | ((cs, None), n') \<Rightarrow> seq (cs, None) (create_objects S batch later n')))"

text \<open>
  \<open>Transaction::replicate\<close> on a source transaction whose group holds the tables \<open>S\<close>,
  in the order of \<open>get_table_keys\<close>.
\<close>

definition replicate_to :: "bool \<Rightarrow> Table list \<Rightarrow> out" where
  "replicate_to realm_debug S =
     (let public_tables = filter tbl_public S;
          batch = number_of_objects_to_create_before_committing realm_debug
      in seq (create_tables public_tables)
           (seq (create_columns S public_tables, None)
              (seq ([Commit_and_continue_writing], None)
                 (create_objects S batch public_tables batch))))"

section \<open>Predicates and sample states used by the theorems\<close>

text \<open>
  The lock invariant of the data model: a retained lock
  (\<open>m_oldest_version_not_persisted\<close>), when present, pins a version strictly older than
  the current read lock.
\<close>

definition retained_lock_older :: "Transaction \<Rightarrow> bool" where
  "retained_lock_older t =
     (case m_oldest_version_not_persisted t of
        None \<Rightarrow> True
      | Some old \<Rightarrow> m_version old < m_version (m_read_lock t))"

text \<open>
  What the comments of \<open>commit_and_continue_as_read\<close> rely on: the live lock the
  registry grants after a commit refers to that commit, so it is newer than the lock
  held until then.
\<close>

definition grants_newer_version :: "db_replies \<Rightarrow> Transaction \<Rightarrow> bool" where
  "grants_newer_version env t =
     (case grab_read_lock_reply env of
        Inl e \<Rightarrow> True
      | Inr new_read_lock \<Rightarrow> m_version (m_read_lock t) < m_version new_read_lock)"

text \<open>\<open>t'\<close> holds the current lock of \<open>t\<close> and the retained lock of \<open>t\<close> or none.\<close>

definition locks_kept :: "Transaction \<Rightarrow> Transaction \<Rightarrow> bool" where
  "locks_kept t t' \<longleftrightarrow>
     m_read_lock t' = m_read_lock t
     \<and> (m_oldest_version_not_persisted t' = m_oldest_version_not_persisted t
        \<or> m_oldest_version_not_persisted t' = None)"

text \<open>The calls an operation added to the log.\<close>

definition new_calls :: "Transaction \<Rightarrow> Transaction \<Rightarrow> db_call list" where
  "new_calls t t' = drop (length (db_calls t)) (db_calls t')"

text \<open>
  The outcome \<open>r\<close> of detaching \<open>t\<close> after a flush that failed with exception \<open>e\<close>:
  the detach returned, the retained lock \<open>old\<close> was leaked and not released, the lock
  \<open>fresh\<close> grabbed for the flush and the current lock were released, the Transaction is
  in \<open>transact_Ready\<close>, and the failure is on record.
\<close>

definition detached_leaking ::
  "ReadLockInfo \<Rightarrow> ReadLockInfo \<Rightarrow> nat \<Rightarrow> Transaction
     \<Rightarrow> (error + unit) option \<times> Transaction \<Rightarrow> bool" where
  "detached_leaking old fresh e t r \<longleftrightarrow>
     fst r = Some (Inr ())
     \<and> Leak_read_lock old \<in> set (new_calls t (snd r))
     \<and> Release_read_lock old \<notin> set (new_calls t (snd r))
     \<and> Release_read_lock fresh \<in> set (new_calls t (snd r))
     \<and> Release_read_lock (m_read_lock t) \<in> set (new_calls t (snd r))
     \<and> m_transact_stage (snd r) = transact_Ready
     \<and> m_commit_exception (snd r) = Some (Thrown e)
     \<and> m_async_commit_has_failed (snd r)"

text \<open>
  The lock the registry grants when asked again, with kind \<open>kind\<close>, for the version and
  slot that \<open>t\<close> has pinned.
\<close>

definition pinned_again :: "db_handle \<Rightarrow> LockType \<Rightarrow> Transaction \<Rightarrow> ReadLockInfo" where
  "pinned_again db kind t =
     \<lparr>m_version = m_version (m_read_lock t), m_reader_idx = m_reader_idx (m_read_lock t),
      m_top_ref = root_offset_of db (m_version (m_read_lock t)),
      m_file_size = file_size_of db (m_version (m_read_lock t)), m_type = kind\<rparr>"

text \<open>
  A handle as the constructor leaves it, on lock \<open>rli\<close> in stage \<open>stage\<close>: attached, the
  coordinator Idle, no retained lock, no stored failure, nobody waiting, nothing handed
  to the helper thread, no call made yet, and nothing written.
\<close>

definition new_handle :: "ReadLockInfo \<Rightarrow> TransactStage \<Rightarrow> Transaction \<Rightarrow> bool" where
  "new_handle rli stage t' \<longleftrightarrow>
     m_transact_stage t' = stage \<and> m_read_lock t' = rli \<and> attached t'
     \<and> m_async_stage t' = Idle \<and> m_oldest_version_not_persisted t' = None
     \<and> m_commit_exception t' = None \<and> \<not> m_async_commit_has_failed t'
     \<and> \<not> m_waiting_for_sync t' \<and> \<not> m_waiting_for_write_lock t' \<and> \<not> m_history t'
     \<and> sync_job t' = None \<and> db_calls t' = [] \<and> alloc_commit_size t' = 0"

text \<open>Sample locks, replies, handles and transactions.\<close>

definition ex_lock :: "nat \<Rightarrow> ReadLockInfo" where
  "ex_lock v = \<lparr>m_version = v, m_reader_idx = v mod 4, m_top_ref = 64 * v, m_file_size = 4096,
                 m_type = Live\<rparr>"

definition ex_replies :: db_replies where
  "ex_replies = \<lparr>do_commit_reply = Inr 6, grab_read_lock_reply = Inr (ex_lock 6),
                  group_commit_reply = None, remap_reply = None, has_replication = False,
                  initiate_transact_reply = None, default_read_lock = ex_lock 0\<rparr>"

definition ex_failing_flush :: db_replies where
  "ex_failing_flush = ex_replies\<lparr>group_commit_reply := Some 28\<rparr>"

definition ex_db :: db_handle where
  "ex_db = \<lparr>torn_down = None, root_offset_of = (\<lambda>v. 64 * v), file_size_of = (\<lambda>v. 4096)\<rparr>"

definition ex_reader :: Transaction where
  "ex_reader = Transaction_ctor (ex_lock 5) transact_Reading"

definition ex_frozen :: Transaction where
  "ex_frozen = Transaction_ctor ((ex_lock 5)\<lparr>m_type := Frozen\<rparr>) transact_Frozen"

definition ex_writer :: Transaction where
  "ex_writer = (Transaction_ctor (ex_lock 5) transact_Writing)\<lparr>m_async_stage := HasLock\<rparr>"

definition ex_dirty_writer :: Transaction where
  "ex_dirty_writer = ex_writer\<lparr>alloc_commit_size := 128\<rparr>"

definition ex_writer_retaining :: Transaction where
  "ex_writer_retaining = ex_writer\<lparr>m_oldest_version_not_persisted := Some (ex_lock 4)\<rparr>"

definition ex_detached :: Transaction where
  "ex_detached = ex_reader\<lparr>m_transact_stage := transact_Ready, attached := False\<rparr>"

text \<open>A reader whose commits of version 5 wait for the flush, version 4 still retained.\<close>

definition ex_unflushed :: Transaction where
  "ex_unflushed =
     ex_reader\<lparr>m_async_stage := HasCommits, m_oldest_version_not_persisted := Some (ex_lock 4)\<rparr>"

text \<open>
  For the walk: the refs of all nodes of a tree, the ref an array call is made on, and
  the calls that are all made on nodes of one tree.
\<close>

primrec node_refs :: "node \<Rightarrow> 64 word list" where
  "node_refs (Node ro r b h es) = r # concat (map snd (map (map_prod id node_refs) es))"

fun call_ref :: "array_call \<Rightarrow> 64 word" where
  "call_ref (Is_read_only r) = r"
| "call_ref (Copy_on_write r) = r"

definition on_tree :: "node \<Rightarrow> array_call list \<Rightarrow> bool" where
  "on_tree n cs = list_all (\<lambda>c. call_ref c \<in> set (node_refs n)) cs"

text \<open>The history array \<open>hist_arr\<close> of \<open>cow_outliers\<close>, and whether the top array has one.\<close>

definition hist_arr :: "Group \<Rightarrow> node" where
  "hist_arr g = snd (elems (m_top g) ! s_hist_ref_ndx g)"

definition hist_present :: "Group \<Rightarrow> bool" where
  "hist_present g \<longleftrightarrow>
     s_hist_ref_ndx g < length (elems (m_top g))
     \<and> fst (elems (m_top g) ! s_hist_ref_ndx g) \<noteq> 0"

text \<open>
  What the specification asks of the walk, in its words: for each node, inspect it and
  force a copy when it is read-only and \<open>offset + byte_size\<close> exceeds \<open>evac_limit\<close>; then
  ``recurse only into children that are themselves node references'', in slot order.
  \<open>walk_calls\<close> is the sequence of calls of a full walk of one tree, \<open>forest_calls\<close> that of
  the three top-level trees in their fixed order, the history tree only when present.
\<close>

definition node_calls :: "64 word \<Rightarrow> node \<Rightarrow> array_call list" where
  "node_calls evac_limit n =
     Is_read_only (get_ref n)
       # (if is_read_only n \<and> get_ref n + get_byte_size n > evac_limit
          then [Copy_on_write (get_ref n)] else [])"

fun walk_calls :: "64 word \<Rightarrow> node \<Rightarrow> array_call list"
  and walk_calls_slots :: "64 word \<Rightarrow> (64 word \<times> node) list \<Rightarrow> array_call list" where
  "walk_calls evac_limit (Node ro r b h es) =
     node_calls evac_limit (Node ro r b h es)
       @ (if h then walk_calls_slots evac_limit es else [])"
| "walk_calls_slots evac_limit [] = []"
| "walk_calls_slots evac_limit ((val, arr) # es) =
     (if val \<noteq> 0 \<and> val AND 1 = 0 then walk_calls evac_limit arr else [])
       @ walk_calls_slots evac_limit es"

text \<open>A sequence of calls that is empty or begins with an inspection.\<close>

fun starts_inspecting :: "array_call list \<Rightarrow> bool" where
  "starts_inspecting [] = True"
| "starts_inspecting (Is_read_only r # cs) = True"
| "starts_inspecting (Copy_on_write r # cs) = False"

definition hist_calls :: "64 word \<Rightarrow> Group \<Rightarrow> array_call list" where
  "hist_calls evac_limit g =
     (if hist_present g then walk_calls evac_limit (hist_arr g) else [])"

definition forest_calls :: "64 word \<Rightarrow> Group \<Rightarrow> array_call list" where
  "forest_calls evac_limit g =
     walk_calls evac_limit (m_table_names g) @ walk_calls evac_limit (m_tables g)
       @ hist_calls evac_limit g"

text \<open>
  A call of \<open>cow_outliers\<close> follows an expected sequence of calls: what it did is an
  initial piece of the sequence, and all of it when the call reached its end.
\<close>

definition walk_follows :: "array_call list \<Rightarrow> walk_end \<times> NodeTree \<Rightarrow> bool" where
  "walk_follows expected r \<longleftrightarrow>
     take (length (array_calls (snd r))) expected = array_calls (snd r)
     \<and> (fst r = Completed \<longrightarrow> array_calls (snd r) = expected)"

text \<open>
  The same for one call of \<open>trv\<close> or one run of its loop, from state \<open>w\<close> at \<open>level\<close>:
  the evacuation limit is kept, the calls added are an initial piece of the expected
  ones, and all of them, with \<open>progress\<close> cut back to \<open>level\<close>, when the result is \<open>true\<close>.
\<close>

definition walked :: "array_call list \<Rightarrow> (error + bool) \<times> NodeTree \<Rightarrow> NodeTree \<Rightarrow> nat \<Rightarrow> bool" where
  "walked expected res w level \<longleftrightarrow>
     m_evac_limit (snd res) = m_evac_limit w
     \<and> (\<exists>cs rest. array_calls (snd res) = array_calls w @ cs \<and> expected = cs @ rest
           \<and> (fst res = Inr True \<longrightarrow> rest = [] \<and> length (progress (snd res)) = level))"

text \<open>The walk state in which nothing has been done yet.\<close>

definition start_tree :: "64 word \<Rightarrow> 64 word \<Rightarrow> nat list \<Rightarrow> NodeTree" where
  "start_tree evac_limit work_limit p =
     \<lparr>m_evac_limit = evac_limit, m_work_limit = work_limit, m_moved = 0, progress = p,
      array_calls = []\<rparr>"

text \<open>
  A sample group: read-only leaves of 8 bytes; a table-name leaf at ref 16, a table
  array at ref 24 with two tables, and a top array whose slot 8 holds a history leaf.
\<close>

definition ex_leaf :: "64 word \<Rightarrow> node" where
  "ex_leaf r = Node True r 8 False []"

definition ex_group :: Group where
  "ex_group =
     \<lparr>m_table_names = ex_leaf 16,
      m_tables = Node True 24 24 True [(32, ex_leaf 32), (0, ex_leaf 0), (40, ex_leaf 40)],
      m_top = Node False 8 104 True
                [(16, ex_leaf 16), (24, ex_leaf 24), (4097, ex_leaf 0), (0, ex_leaf 0),
                 (0, ex_leaf 0), (0, ex_leaf 0), (3, ex_leaf 0), (5, ex_leaf 0),
                 (48, ex_leaf 48), (1, ex_leaf 0)],
      s_table_name_ndx = 0, s_table_refs_ndx = 1, s_hist_ref_ndx = 8\<rparr>"

text \<open>
  What the copy is expected to send. A table is well keyed when it is embedded or
  has a primary key named \<open>_id\<close>; \<open>key_error\<close> is the complaint about one that is not.
\<close>

definition well_keyed :: "Table \<Rightarrow> bool" where
  "well_keyed t \<longleftrightarrow>
     is_embedded t
     \<or> (case tbl_primary_key t of None \<Rightarrow> False | Some pk \<Rightarrow> col_name pk = ''_id'')"

definition key_error :: "Table \<Rightarrow> error" where
  "key_error t =
     (case tbl_primary_key t of
        None \<Rightarrow> Missing_primary_key (tbl_class_name t)
      | Some pk \<Rightarrow> Primary_key_not_named_id (tbl_class_name t) (col_name pk))"

text \<open>The call that creates the class of a table, and those that create its columns.\<close>

definition class_call :: "Table \<Rightarrow> repl_call" where
  "class_call t =
     (if is_embedded t then Add_class (tbl_key t) (tbl_name t) Embedded
      else (case tbl_primary_key t of
              Some pk \<Rightarrow> Add_class_with_primary_key (tbl_key t) (tbl_name t) (col_type (col_key pk))
                           (col_name pk) (col_nullable (col_key pk)) (tbl_type t)
            | None \<Rightarrow> Add_class (tbl_key t) (tbl_name t) (tbl_type t)))"

definition column_calls :: "Table list \<Rightarrow> Table \<Rightarrow> repl_call list" where
  "column_calls S t =
     map (\<lambda>c. Insert_column (tbl_key t) (col_key c) (col_type (col_key c)) (col_name c)
                 (map_option tbl_key (get_opposite_table S c)))
         (filter (\<lambda>c. Some (col_key c) \<noteq> map_option col_key (tbl_primary_key t))
                 (tbl_columns t))"

text \<open>
  The calls for one object: its creation under its primary key, then its properties.
\<close>

definition object_calls :: "Table list \<Rightarrow> Table \<Rightarrow> obj \<Rightarrow> repl_call list" where
  "object_calls S t ob =
     Create_object_with_primary_key (tbl_key t) (get_key ob)
        (to_sink (case tbl_primary_key t of
                    Some pk \<Rightarrow> get_any t ob (col_key pk) | None \<Rightarrow> M_null))
       # fst (generate_properties_for_obj S ob (get_col_info S (Some t)))"

text \<open>The objects to create, each with its table: those of the tables not embedded.\<close>

definition objects_to_create :: "Table list \<Rightarrow> (Table \<times> obj) list" where
  "objects_to_create public_tables =
     concat (map (\<lambda>t. map (\<lambda>ob. (t, ob)) (tbl_objects t))
                 (filter (\<lambda>t. \<not> is_embedded t) public_tables))"

text \<open>
  Groups of calls in order, with a commit after every \<open>batch\<close>-th group; \<open>done\<close> counts
  the groups before.
\<close>

fun batched :: "nat \<Rightarrow> nat \<Rightarrow> repl_call list list \<Rightarrow> repl_call list" where
  "batched batch done [] = []"
| "batched batch done (calls # later) =
     calls @ (if batch dvd Suc done then [Commit_and_continue_writing] else [])
       @ batched batch (Suc done) later"

text \<open>
  A run that did not throw and whose calls are all among \<open>calls\<close>.
\<close>

definition ran_into :: "out \<Rightarrow> repl_call list \<Rightarrow> bool" where
  "ran_into r calls \<longleftrightarrow> snd r = None \<and> set (fst r) \<subseteq> set calls"

text \<open>The embedded table a column links to, if it links to one.\<close>

definition embedded_target :: "Table list \<Rightarrow> column \<Rightarrow> Table option" where
  "embedded_target S c =
     (case get_opposite_table S c of
        Some target_table \<Rightarrow> if is_embedded target_table then Some target_table else None
      | None \<Rightarrow> None)"

text \<open>
  The properties of an object have been sent, whatever the order of the calls. Every
  element of a list is inserted at its position and every pair of a dictionary at its
  position under its key; a collection nested in either is sent in the same way under
  the longer path; where the column links to an embedded table \<open>emb\<close>, the properties
  of the embedded object behind a link are sent as well (for the elements of the
  column's own collection, not for those of a nested one). A list column is cleared
  and filled, the elements of a set and the pairs of a dictionary are inserted, and any
  other value is set, followed by what it holds.
\<close>

function (sequential)
      list_sent :: "Table list \<Rightarrow> Table option \<Rightarrow> coll \<Rightarrow> nat \<Rightarrow> mixed list \<Rightarrow> repl_call list \<Rightarrow> bool"
  and dict_sent :: "Table list \<Rightarrow> Table option \<Rightarrow> coll \<Rightarrow> nat \<Rightarrow> (string \<times> mixed) list
                      \<Rightarrow> repl_call list \<Rightarrow> bool"
  and item_sent :: "Table list \<Rightarrow> Table option \<Rightarrow> coll \<Rightarrow> mixed \<Rightarrow> repl_call list \<Rightarrow> bool"
  and embedded_sent :: "Table list \<Rightarrow> Table option \<Rightarrow> mixed \<Rightarrow> repl_call list \<Rightarrow> bool"
  and properties_sent :: "Table list \<Rightarrow> Table \<Rightarrow> obj \<Rightarrow> repl_call list \<Rightarrow> bool"
  and columns_sent :: "Table list \<Rightarrow> nat \<Rightarrow> nat \<Rightarrow> column list \<Rightarrow> mixed list \<Rightarrow> repl_call list \<Rightarrow> bool"
where
  "list_sent S emb c n [] calls = True"
| "list_sent S emb c n (x # xs) calls =
     (List_insert c n (to_sink x) n \<in> set calls
      \<and> item_sent S emb (sub c (Index n)) x calls
      \<and> list_sent S emb c (Suc n) xs calls)"
| "dict_sent S emb c n [] calls = True"
| "dict_sent S emb c n ((key, x) # kvs) calls =
     (Dictionary_insert c n key (to_sink x) \<in> set calls
      \<and> item_sent S emb (sub c (Key key)) x calls
      \<and> dict_sent S emb c (Suc n) kvs calls)"
| "item_sent S emb c (M_list xs) calls = list_sent S None c 0 xs calls"
| "item_sent S emb c (M_dict kvs) calls = dict_sent S None c 0 kvs calls"
| "item_sent S emb c val calls = embedded_sent S emb val calls"
| "embedded_sent S (Some t) (M_link k (Some ob)) calls = properties_sent S t ob calls"
| "embedded_sent S emb val calls = True"
| "properties_sent S t (Obj tk k vals) calls = columns_sent S tk k (tbl_columns t) vals calls"
| "columns_sent S tk k [] vals calls = True"
| "columns_sent S tk k (col # cols) [] calls = True"
| "columns_sent S tk k (col # cols) (val # vals) calls =
     ((if col_is_list (col_key col) then
         List_clear (Coll tk k (col_idx (col_key col)) []) \<in> set calls
         \<and> (case val of
              M_list xs \<Rightarrow>
                list_sent S (embedded_target S col) (Coll tk k (col_idx (col_key col)) []) 0 xs calls
            | _ \<Rightarrow> True)
       else if col_is_set (col_key col) then
         (case val of
            M_list xs \<Rightarrow>
              list_all (\<lambda>(n, x). Set_insert (Coll tk k (col_idx (col_key col)) []) n (to_sink x)
                                   \<in> set calls)
                       (zip [0 ..< length xs] xs)
          | _ \<Rightarrow> True)
       else if col_is_dictionary (col_key col) then
         (case val of
            M_dict kvs \<Rightarrow>
              dict_sent S (embedded_target S col) (Coll tk k (col_idx (col_key col)) []) 0 kvs calls
          | _ \<Rightarrow> True)
       else
         Repl_set tk (col_key col) k (to_sink val) \<in> set calls
         \<and> (case val of
              M_list xs \<Rightarrow>
                list_sent S (embedded_target S col) (Coll tk k (col_idx (col_key col)) []) 0 xs calls
            | M_dict kvs \<Rightarrow>
                dict_sent S (embedded_target S col) (Coll tk k (col_idx (col_key col)) []) 0 kvs calls
            | _ \<Rightarrow> embedded_sent S (embedded_target S col) val calls))
      \<and> columns_sent S tk k cols vals calls)"
  by pat_completeness auto

termination
  by (relation "measure (\<lambda>x. case x of
       Inl (Inl (S, emb, c, n, xs, calls)) \<Rightarrow> 2 * size_list size xs
     | Inl (Inr (Inl (S, emb, c, n, kvs, calls))) \<Rightarrow> 2 * size_list (size_prod (\<lambda>_. 0) size) kvs
     | Inl (Inr (Inr (S, emb, c, val, calls))) \<Rightarrow> 2 * size val + 1
     | Inr (Inl (S, emb, val, calls)) \<Rightarrow> 2 * size val
     | Inr (Inr (Inl (S, t, ob, calls))) \<Rightarrow> 2 * size ob
     | Inr (Inr (Inr (S, tk, k, cols, vals, calls))) \<Rightarrow> 2 * size_list size vals)") auto

text \<open>
  Sample tables: people with a list of tags and an embedded address, the embedded
  addresses, a table that is not public, and a top-level table without a primary key.
\<close>

definition ex_col :: "nat \<Rightarrow> string \<Rightarrow> bool \<Rightarrow> nat option \<Rightarrow> column" where
  "ex_col i name is_list target =
     \<lparr>col_key = \<lparr>col_idx = i, col_type = i, col_nullable = False, col_is_list = is_list,
                  col_is_set = False, col_is_dictionary = False\<rparr>,
      col_name = name, col_opposite = target\<rparr>"

definition ex_address :: Table where
  "ex_address =
     \<lparr>tbl_key = 2, tbl_name = ''class_Address'', tbl_class_name = ''Address'', tbl_public = True,
      tbl_type = Embedded, tbl_primary_key = None, tbl_columns = [ex_col 0 ''city'' False None],
      tbl_objects = [Obj 2 20 [M_scalar 99]]\<rparr>"

definition ex_person :: Table where
  "ex_person =
     \<lparr>tbl_key = 1, tbl_name = ''class_Person'', tbl_class_name = ''Person'', tbl_public = True,
      tbl_type = TopLevel, tbl_primary_key = Some (ex_col 0 ''_id'' False None),
      tbl_columns = [ex_col 0 ''_id'' False None, ex_col 1 ''tags'' True None,
                     ex_col 2 ''home'' False (Some 2)],
      tbl_objects = [Obj 1 10 [M_scalar 7, M_list [M_scalar 1, M_list [M_scalar 2]],
                               M_link 20 (Some (Obj 2 20 [M_scalar 99]))]]\<rparr>"

definition ex_metadata :: Table where
  "ex_metadata =
     \<lparr>tbl_key = 0, tbl_name = ''metadata'', tbl_class_name = ''metadata'', tbl_public = False,
      tbl_type = TopLevel, tbl_primary_key = None, tbl_columns = [ex_col 0 ''version'' False None],
      tbl_objects = []\<rparr>"

definition ex_keyless :: Table where
  "ex_keyless =
     \<lparr>tbl_key = 3, tbl_name = ''class_Log'', tbl_class_name = ''Log'', tbl_public = True,
      tbl_type = TopLevel, tbl_primary_key = None, tbl_columns = [ex_col 0 ''line'' False None],
      tbl_objects = []\<rparr>"

section \<open>Properties of the transaction state machine and the coordinator\<close>

lemmas tx_defs = call_def is_attached_def holds_write_mutex_def set_transact_stage_def
  Transaction_ctor_def get_commit_size_def new_calls_def

lemmas ex_defs = ex_lock_def ex_replies_def ex_failing_flush_def ex_db_def ex_reader_def
  ex_frozen_def ex_writer_def ex_dirty_writer_def ex_writer_retaining_def ex_detached_def
  ex_unflushed_def

text \<open>
  C10. \<open>promote_to_async\<close> moves the coordinator from Idle to HasLock and changes nothing
  else; in every other coordinator state (Requesting, HasLock, HasCommits, Syncing) it
  returns the Transaction exactly as it was.
\<close>

theorem promote_to_async_frame:
  "(m_async_stage t = Idle \<longrightarrow> promote_to_async t = t\<lparr>m_async_stage := HasLock\<rparr>)
   \<and> (m_async_stage t \<noteq> Idle \<longrightarrow> promote_to_async t = t)"
  by (simp add: promote_to_async_def)

theorem promote_to_async_frame_witness:
  "m_async_stage ex_reader = Idle
   \<and> promote_to_async ex_reader = ex_reader\<lparr>m_async_stage := HasLock\<rparr>
   \<and> m_async_stage ex_unflushed \<noteq> Idle
   \<and> promote_to_async ex_unflushed = ex_unflushed"
  using promote_to_async_frame [of ex_reader] promote_to_async_frame [of ex_unflushed]
  by (simp add: ex_defs tx_defs)

text \<open>
  C1, as the claim states it, fails: in HasLock with nothing pending the completion
  callback is not invoked at all, neither before the call returns nor later (no closure
  holding it is handed to the helper thread).
\<close>

theorem async_complete_writes_callback_counterexample:
  "m_async_stage ex_writer = HasLock
   \<and> m_oldest_version_not_persisted ex_writer = None
   \<and> Invoke_callback 7 \<notin> set (db_calls (async_complete_writes 7 ex_writer))
   \<and> sync_job (async_complete_writes 7 ex_writer) = None"
  by (simp add: async_complete_writes_def ex_defs tx_defs)

text \<open>
  C1, amended. From HasLock, \<open>async_complete_writes\<close> sets the coordinator to Idle (never
  to Syncing), releases the write lock through \<open>async_end_write\<close>, and does nothing else:
  the callback is dropped without being invoked and nothing is handed to the helper
  thread.
\<close>

theorem async_complete_writes_from_HasLock:
  "m_async_stage t = HasLock \<Longrightarrow>
     async_complete_writes when_synchronized t
       = t\<lparr>m_async_stage := Idle, db_calls := db_calls t @ [Async_end_write]\<rparr>"
  by (simp add: async_complete_writes_def call_def)

theorem async_complete_writes_from_HasLock_witness:
  "m_async_stage ex_writer = HasLock
   \<and> async_complete_writes 7 ex_writer
       = ex_writer\<lparr>m_async_stage := Idle, db_calls := [Async_end_write]\<rparr>"
  using async_complete_writes_from_HasLock [of ex_writer 7]
  by (simp add: ex_defs tx_defs)

text \<open>
  C7. \<open>rollback\<close> on a Transaction that is not attached, or that is already in
  \<open>transact_Ready\<close> (NotAttached), returns normally and leaves the Transaction as it was,
  however often it is called; on an attached Transaction in Reading or Frozen stage it
  throws \<open>WrongTransactionState\<close> (the specification's InvalidState) and changes nothing.
\<close>

theorem rollback_noop_or_wrong_state:
  "(\<not> is_attached t \<or> m_transact_stage t = transact_Ready \<longrightarrow>
      rollback env t = (Some (Inr ()), t) \<and> ((\<lambda>s. snd (rollback env s)) ^^ n) t = t)
   \<and> (is_attached t
        \<and> (m_transact_stage t = transact_Reading \<or> m_transact_stage t = transact_Frozen) \<longrightarrow>
      rollback env t = (Some (Inl WrongTransactionState), t))"
proof -
  have noop: "rollback env t = (Some (Inr ()), t)"
    if "\<not> is_attached t \<or> m_transact_stage t = transact_Ready"
    using that by (auto simp: rollback_def)
  then have "((\<lambda>s. snd (rollback env s)) ^^ n) t = t"
    if "\<not> is_attached t \<or> m_transact_stage t = transact_Ready"
    using that by (induction n) simp_all
  with noop show ?thesis by (auto simp: rollback_def)
qed

theorem rollback_noop_or_wrong_state_witness:
  "\<not> is_attached ex_detached
   \<and> rollback ex_replies ex_detached = (Some (Inr ()), ex_detached)
   \<and> ((\<lambda>s. snd (rollback ex_replies s)) ^^ 3) ex_detached = ex_detached
   \<and> is_attached ex_reader \<and> m_transact_stage ex_reader = transact_Reading
   \<and> rollback ex_replies ex_reader = (Some (Inl WrongTransactionState), ex_reader)
   \<and> is_attached ex_frozen \<and> m_transact_stage ex_frozen = transact_Frozen
   \<and> rollback ex_replies ex_frozen = (Some (Inl WrongTransactionState), ex_frozen)"
  using rollback_noop_or_wrong_state [of ex_detached ex_replies 3]
    rollback_noop_or_wrong_state [of ex_reader ex_replies 0]
    rollback_noop_or_wrong_state [of ex_frozen ex_replies 0]
  by (simp add: ex_defs tx_defs)

text \<open>The constructor's handle is the only one that is new on its lock and stage.\<close>

lemma new_handle_iff: "new_handle rli stage t' \<longleftrightarrow> t' = Transaction_ctor rli stage"
  by (cases t') (auto simp: new_handle_def Transaction_ctor_def set_transact_stage_def)

text \<open>
  C8. While the database handle is open, \<open>duplicate\<close> returns a new Transaction pinned at
  the version (and registry slot) of the receiver: a handle as the constructor makes it,
  that takes nothing else from the receiver (not its coordinator state, its retained
  lock, its stored failure or its call log), in Reading stage for a Reading receiver, in
  Frozen stage for a Frozen one, and in Reading stage for a Writing one that has written
  zero bytes. A Writing Transaction with a non-zero commit size and a Transaction in
  \<open>transact_Ready\<close> get \<open>WrongTransactionState\<close>, whatever the state of the handle.
\<close>

theorem duplicate_by_stage:
  "(torn_down db = None \<longrightarrow>
      (m_transact_stage t = transact_Reading \<longrightarrow>
         (\<exists>t'. duplicate db t = Inr t'
               \<and> new_handle (pinned_again db Live t) transact_Reading t'
               \<and> m_version (m_read_lock t') = m_version (m_read_lock t)))
      \<and> (m_transact_stage t = transact_Frozen \<longrightarrow>
         (\<exists>t'. duplicate db t = Inr t'
               \<and> new_handle (pinned_again db Frozen t) transact_Frozen t'
               \<and> m_version (m_read_lock t') = m_version (m_read_lock t)))
      \<and> (m_transact_stage t = transact_Writing \<and> get_commit_size t = 0 \<longrightarrow>
         (\<exists>t'. duplicate db t = Inr t'
               \<and> new_handle (pinned_again db Live t) transact_Reading t'
               \<and> m_version (m_read_lock t') = m_version (m_read_lock t))))
   \<and> (m_transact_stage t = transact_Writing \<and> get_commit_size t \<noteq> 0 \<longrightarrow>
        duplicate db t = Inl WrongTransactionState)
   \<and> (m_transact_stage t = transact_Ready \<longrightarrow> duplicate db t = Inl WrongTransactionState)"
  by (simp add: duplicate_def start_read_def start_frozen_def grab_read_lock_def
        new_handle_iff pinned_again_def)
     (simp add: Transaction_ctor_def set_transact_stage_def)

theorem duplicate_by_stage_witness:
  "torn_down ex_db = None
   \<and> m_transact_stage ex_reader = transact_Reading
   \<and> duplicate ex_db ex_reader = Inr ex_reader
   \<and> m_transact_stage ex_unflushed = transact_Reading
   \<and> duplicate ex_db ex_unflushed = Inr ex_reader \<and> ex_reader \<noteq> ex_unflushed
   \<and> m_transact_stage ex_frozen = transact_Frozen
   \<and> duplicate ex_db ex_frozen = Inr ex_frozen
   \<and> m_transact_stage ex_writer = transact_Writing \<and> get_commit_size ex_writer = 0
   \<and> duplicate ex_db ex_writer = Inr ex_reader
   \<and> get_commit_size ex_dirty_writer \<noteq> 0
   \<and> duplicate ex_db ex_dirty_writer = Inl WrongTransactionState
   \<and> m_transact_stage ex_detached = transact_Ready
   \<and> duplicate ex_db ex_detached = Inl WrongTransactionState"
proof -
  have l: "pinned_again ex_db Live ex_reader = ex_lock 5"
    "pinned_again ex_db Live ex_unflushed = ex_lock 5"
    "pinned_again ex_db Live ex_writer = ex_lock 5"
    "pinned_again ex_db Frozen ex_frozen = (ex_lock 5)\<lparr>m_type := Frozen\<rparr>"
    by (simp_all add: pinned_again_def ex_defs tx_defs)
  have s: "torn_down ex_db = None" "m_transact_stage ex_reader = transact_Reading"
    "m_transact_stage ex_unflushed = transact_Reading"
    "m_transact_stage ex_frozen = transact_Frozen"
    "m_transact_stage ex_writer = transact_Writing" "get_commit_size ex_writer = 0"
    "m_transact_stage ex_dirty_writer = transact_Writing" "get_commit_size ex_dirty_writer \<noteq> 0"
    "m_transact_stage ex_detached = transact_Ready" "ex_reader \<noteq> ex_unflushed"
    by (simp_all add: ex_defs tx_defs)
  have c: "Transaction_ctor (ex_lock 5) transact_Reading = ex_reader"
    "Transaction_ctor ((ex_lock 5)\<lparr>m_type := Frozen\<rparr>) transact_Frozen = ex_frozen"
    by (simp_all add: ex_reader_def ex_frozen_def)
  show ?thesis
    using s duplicate_by_stage [of ex_db ex_reader] duplicate_by_stage [of ex_db ex_unflushed]
      duplicate_by_stage [of ex_db ex_frozen] duplicate_by_stage [of ex_db ex_writer]
      duplicate_by_stage [of ex_db ex_dirty_writer] duplicate_by_stage [of ex_db ex_detached]
    by (simp add: new_handle_iff l c)
qed

subsection \<open>Read locks across commits and flushes\<close>

text \<open>
  C3, as the claim states it, fails in both directions of its first condition. With
  \<open>flush_to_disk = false\<close> and no retained lock the call succeeds and the prior lock is
  not released (it becomes the retained lock); with \<open>flush_to_disk = false\<close> and a
  retained lock present the prior lock is not kept as the retained lock.
\<close>

theorem commit_and_continue_as_read_release_counterexample:
  "fst (commit_and_continue_as_read False ex_replies ex_writer) = Inr (VersionID 6 2)
   \<and> m_oldest_version_not_persisted ex_writer = None
   \<and> Release_read_lock (m_read_lock ex_writer)
        \<notin> set (db_calls (snd (commit_and_continue_as_read False ex_replies ex_writer)))
   \<and> fst (commit_and_continue_as_read False ex_replies ex_writer_retaining)
        = Inr (VersionID 6 2)
   \<and> m_oldest_version_not_persisted ex_writer_retaining \<noteq> None
   \<and> m_oldest_version_not_persisted
         (snd (commit_and_continue_as_read False ex_replies ex_writer_retaining))
        \<noteq> Some (m_read_lock ex_writer_retaining)"
  by (simp add: commit_and_continue_as_read_def commit_and_continue_as_read_try_def
        ex_defs tx_defs Let_def)

text \<open>
  C3, amended. For every successful call of \<open>commit_and_continue_as_read(flush_to_disk)\<close>:
  if \<open>flush_to_disk\<close> is true or a retained lock already exists, the prior read lock is
  released; otherwise (no flush and no retained lock yet) the prior read lock is kept as
  the retained lock and not released; and if \<open>flush_to_disk\<close> is true, a retained lock
  that exists is released and none is retained afterwards.
\<close>

theorem commit_and_continue_as_read_locks:
  assumes "commit_and_continue_as_read commit_to_disk env t = (Inr v, t')"
  shows "(commit_to_disk \<or> m_oldest_version_not_persisted t \<noteq> None \<longrightarrow>
            Release_read_lock (m_read_lock t) \<in> set (new_calls t t'))
       \<and> (\<not> commit_to_disk \<and> m_oldest_version_not_persisted t = None \<longrightarrow>
            m_oldest_version_not_persisted t' = Some (m_read_lock t)
            \<and> Release_read_lock (m_read_lock t) \<notin> set (new_calls t t'))
       \<and> (commit_to_disk \<longrightarrow>
            (\<forall>old. m_oldest_version_not_persisted t = Some old \<longrightarrow>
               Release_read_lock old \<in> set (new_calls t t'))
            \<and> m_oldest_version_not_persisted t' = None)"
  using assms
  by (auto simp: commit_and_continue_as_read_def commit_and_continue_as_read_try_def
       tx_defs Let_def split: if_splits sum.splits option.splits prod.splits)

theorem commit_and_continue_as_read_locks_witness:
  "commit_and_continue_as_read True ex_replies ex_writer_retaining
     = (Inr (VersionID 6 2), snd (commit_and_continue_as_read True ex_replies ex_writer_retaining))
   \<and> Release_read_lock (ex_lock 5)
        \<in> set (new_calls ex_writer_retaining
                 (snd (commit_and_continue_as_read True ex_replies ex_writer_retaining)))
   \<and> Release_read_lock (ex_lock 4)
        \<in> set (new_calls ex_writer_retaining
                 (snd (commit_and_continue_as_read True ex_replies ex_writer_retaining)))
   \<and> m_oldest_version_not_persisted
        (snd (commit_and_continue_as_read True ex_replies ex_writer_retaining)) = None
   \<and> commit_and_continue_as_read False ex_replies ex_writer
     = (Inr (VersionID 6 2), snd (commit_and_continue_as_read False ex_replies ex_writer))
   \<and> m_oldest_version_not_persisted
        (snd (commit_and_continue_as_read False ex_replies ex_writer)) = Some (ex_lock 5)
   \<and> Release_read_lock (ex_lock 5)
        \<notin> set (new_calls ex_writer
                 (snd (commit_and_continue_as_read False ex_replies ex_writer)))"
proof -
  have h: "commit_and_continue_as_read True ex_replies ex_writer_retaining
     = (Inr (VersionID 6 2), snd (commit_and_continue_as_read True ex_replies ex_writer_retaining))"
    by (simp add: commit_and_continue_as_read_def commit_and_continue_as_read_try_def
          ex_defs tx_defs Let_def)
  have r: "m_read_lock ex_writer_retaining = ex_lock 5"
    "m_oldest_version_not_persisted ex_writer_retaining = Some (ex_lock 4)"
    by (simp_all add: ex_defs tx_defs)
  have h': "commit_and_continue_as_read False ex_replies ex_writer
     = (Inr (VersionID 6 2), snd (commit_and_continue_as_read False ex_replies ex_writer))"
    by (simp add: commit_and_continue_as_read_def commit_and_continue_as_read_try_def
          ex_defs tx_defs Let_def)
  have r': "m_read_lock ex_writer = ex_lock 5" "m_oldest_version_not_persisted ex_writer = None"
    by (simp_all add: ex_defs tx_defs)
  show ?thesis
    using h commit_and_continue_as_read_locks [OF h] r
      h' commit_and_continue_as_read_locks [OF h'] r' by simp
qed

text \<open>Frame rules: the two predicates on locks look at the two lock members only.\<close>

lemma retained_lock_older_frame [simp]:
  "retained_lock_older (call c t) = retained_lock_older t"
  "retained_lock_older (set_transact_stage stage t) = retained_lock_older t"
  "retained_lock_older (t\<lparr>m_transact_stage := a\<rparr>) = retained_lock_older t"
  "retained_lock_older (t\<lparr>m_async_stage := b\<rparr>) = retained_lock_older t"
  "retained_lock_older (t\<lparr>m_commit_exception := c'\<rparr>) = retained_lock_older t"
  "retained_lock_older (t\<lparr>m_async_commit_has_failed := d\<rparr>) = retained_lock_older t"
  "retained_lock_older (t\<lparr>m_waiting_for_sync := e\<rparr>) = retained_lock_older t"
  "retained_lock_older (t\<lparr>m_waiting_for_write_lock := f\<rparr>) = retained_lock_older t"
  "retained_lock_older (t\<lparr>m_history := g\<rparr>) = retained_lock_older t"
  "retained_lock_older (t\<lparr>attached := h\<rparr>) = retained_lock_older t"
  "retained_lock_older (t\<lparr>sync_job := i\<rparr>) = retained_lock_older t"
  "retained_lock_older (t\<lparr>m_oldest_version_not_persisted := None\<rparr>)"
  by (simp_all add: retained_lock_older_def call_def set_transact_stage_def split: option.splits)

lemma locks_kept_frame [simp]:
  "locks_kept t (call c t') = locks_kept t t'"
  "locks_kept t (set_transact_stage stage t') = locks_kept t t'"
  "locks_kept t (t'\<lparr>m_transact_stage := a\<rparr>) = locks_kept t t'"
  "locks_kept t (t'\<lparr>m_async_stage := b\<rparr>) = locks_kept t t'"
  "locks_kept t (t'\<lparr>m_commit_exception := c'\<rparr>) = locks_kept t t'"
  "locks_kept t (t'\<lparr>m_async_commit_has_failed := d\<rparr>) = locks_kept t t'"
  "locks_kept t (t'\<lparr>m_waiting_for_sync := e\<rparr>) = locks_kept t t'"
  "locks_kept t (t'\<lparr>m_waiting_for_write_lock := f\<rparr>) = locks_kept t t'"
  "locks_kept t (t'\<lparr>m_history := g\<rparr>) = locks_kept t t'"
  "locks_kept t (t'\<lparr>attached := h\<rparr>) = locks_kept t t'"
  "locks_kept t (t'\<lparr>sync_job := i\<rparr>) = locks_kept t t'"
  "locks_kept (call c t) t' = locks_kept t t'"
  "locks_kept (t\<lparr>m_transact_stage := a\<rparr>) t' = locks_kept t t'"
  "locks_kept (t\<lparr>m_waiting_for_sync := e\<rparr>) t' = locks_kept t t'"
  "locks_kept (t\<lparr>sync_job := i\<rparr>) t' = locks_kept t t'"
  "locks_kept t t"
  by (simp_all add: locks_kept_def call_def set_transact_stage_def)

lemma locks_kept_clear:
  "locks_kept t t' \<Longrightarrow> locks_kept t (t'\<lparr>m_oldest_version_not_persisted := None\<rparr>)"
  by (simp add: locks_kept_def)

text \<open>The flush and the detach path never touch the current lock and can only drop the
  retained one.\<close>

lemma locks_kept_complete_async_commit: "locks_kept t (complete_async_commit env t)"
  by (simp add: complete_async_commit_def Let_def locks_kept_clear split: sum.splits option.splits)

lemma locks_kept_sync_to_disk_job: "locks_kept t (sync_to_disk_job env cb t)"
  by (simp add: sync_to_disk_job_def Let_def locks_kept_complete_async_commit)

lemma locks_kept_prepare_for_close: "locks_kept t (snd (prepare_for_close env t))"
proof (cases "m_async_stage t")
  case HasLock
  have "locks_kept (if m_transact_stage t = transact_Writing
                     then (call Reset_free_space_tracking t)\<lparr>m_transact_stage := transact_Reading\<rparr>
                     else t) t' = locks_kept t t'" for t'
    by simp
  then show ?thesis using HasLock
    by (simp add: prepare_for_close_def Let_def)
       (metis locks_kept_complete_async_commit)
next
  case Syncing
  have "locks_kept (t\<lparr>m_waiting_for_sync := True, sync_job := None\<rparr>)
          (sync_to_disk_job env cb (t\<lparr>m_waiting_for_sync := True, sync_job := None\<rparr>))" for cb
    by (rule locks_kept_sync_to_disk_job)
  then show ?thesis using Syncing
    by (simp add: prepare_for_close_def split: option.splits)
qed (simp_all add: prepare_for_close_def locks_kept_complete_async_commit)

lemma locks_kept_do_end_read: "locks_kept t (snd (do_end_read env t))"
  using locks_kept_prepare_for_close[of t env]
  by (cases "prepare_for_close env t")
     (auto simp: do_end_read_def Let_def split: option.splits sum.splits)

text \<open>Preservation of the invariant, operation by operation.\<close>

lemma rlo_Transaction_ctor: "retained_lock_older (Transaction_ctor rli stage)"
  by (simp add: retained_lock_older_def Transaction_ctor_def set_transact_stage_def)

lemma rlo_promote_to_async:
  "retained_lock_older t \<Longrightarrow> retained_lock_older (promote_to_async t)"
  by (simp add: promote_to_async_def)

lemma rlo_async_complete_writes:
  "retained_lock_older t \<Longrightarrow> retained_lock_older (async_complete_writes cb t)"
  by (simp add: async_complete_writes_def)

lemma rlo_complete_async_commit:
  "retained_lock_older t \<Longrightarrow> retained_lock_older (complete_async_commit env t)"
  by (simp add: complete_async_commit_def Let_def split: sum.splits option.splits)

lemma rlo_sync_to_disk_job:
  "retained_lock_older t \<Longrightarrow> retained_lock_older (sync_to_disk_job env cb t)"
  by (simp add: sync_to_disk_job_def Let_def rlo_complete_async_commit)

lemma rlo_prepare_for_close:
  "retained_lock_older t \<Longrightarrow> retained_lock_older (snd (prepare_for_close env t))"
  by (cases "m_async_stage t")
     (simp_all add: prepare_for_close_def Let_def rlo_complete_async_commit rlo_sync_to_disk_job
        split: option.splits)

lemma rlo_do_end_read:
  "retained_lock_older t \<Longrightarrow> retained_lock_older (snd (do_end_read env t))"
  using rlo_prepare_for_close[of t env]
  by (cases "prepare_for_close env t")
     (auto simp: do_end_read_def Let_def split: option.splits sum.splits)

lemma rlo_rollback:
  "retained_lock_older t \<Longrightarrow> retained_lock_older (snd (rollback env t))"
  by (simp add: rollback_def Let_def rlo_do_end_read)

lemma rlo_end_read:
  "retained_lock_older t \<Longrightarrow> retained_lock_older (snd (end_read env t))"
  by (simp add: end_read_def rlo_do_end_read)

lemma rlo_close:
  "retained_lock_older t \<Longrightarrow> retained_lock_older (snd (close env t))"
  using rlo_rollback[of t env] rlo_do_end_read[of "snd (rollback env t)" env]
    rlo_do_end_read[of t env]
  by (cases "rollback env t")
     (auto simp: close_def split: option.splits sum.splits prod.splits)

lemma rlo_commit_and_continue_as_read:
  "retained_lock_older t \<Longrightarrow> grants_newer_version env t \<Longrightarrow>
     retained_lock_older (snd (commit_and_continue_as_read commit_to_disk env t))"
  by (auto simp: retained_lock_older_def grants_newer_version_def commit_and_continue_as_read_def
      commit_and_continue_as_read_try_def set_transact_stage_def call_def Let_def
      split: sum.splits option.splits if_splits)

lemma rlo_commit_and_continue_writing:
  "retained_lock_older t \<Longrightarrow> grants_newer_version env t \<Longrightarrow>
     retained_lock_older (snd (commit_and_continue_writing env t))"
  by (auto simp: retained_lock_older_def grants_newer_version_def commit_and_continue_writing_def
      set_transact_stage_def call_def Let_def
      split: sum.splits option.splits if_splits)

lemma rlo_commit:
  assumes "retained_lock_older t" "grants_newer_version env t"
  shows "retained_lock_older (snd (commit env env_close t))"
proof -
  have step: "retained_lock_older (t4\<lparr>m_read_lock := l\<rparr>)"
    if "locks_kept t t4" "m_version (m_read_lock t) < m_version l" for t4 l
    using that assms(1) by (auto simp: locks_kept_def retained_lock_older_def split: option.splits)
  show ?thesis
  proof (cases "\<not> is_attached t \<or> m_transact_stage t \<noteq> transact_Writing")
    case True
    then show ?thesis using assms(1) by (auto simp: commit_def)
  next
    case False
    show ?thesis
    proof (cases "do_commit_reply env")
      case (Inl e)
      then show ?thesis using False assms(1) by (simp add: commit_def Let_def)
    next
      case (Inr new_version)
      show ?thesis
      proof (cases "grab_read_lock_reply env")
        case (Inl e)
        then show ?thesis using False Inr assms(1) by (simp add: commit_def Let_def)
      next
        case lk: (Inr lock_after_commit)
        let ?t3 = "call End_write_on_correct_thread (call (Release_read_lock lock_after_commit)
                     (call Grab_read_lock (call (Do_commit True) (call Flush_accessors_for_commit t))))"
        obtain r t4 where de: "do_end_read env_close ?t3 = (r, t4)"
          by (cases "do_end_read env_close ?t3")
        have k: "locks_kept t t4" using locks_kept_do_end_read[of ?t3 env_close] de by simp
        have v: "m_version (m_read_lock t) < m_version lock_after_commit"
          using assms(2) lk by (simp add: grants_newer_version_def)
        have o: "retained_lock_older t4" using rlo_do_end_read[of ?t3 env_close] de assms(1) by simp
        show ?thesis using False Inr lk de step[OF k v] o
          by (auto simp: commit_def Let_def split: option.splits sum.splits)
      qed
    qed
  qed
qed

text \<open>
  C5. A fresh Transaction has no retained lock. Whenever the retained lock, if present,
  pins a version strictly older than the current read lock, the same holds after every
  operation of this file that sets or clears either lock: \<open>commit_and_continue_as_read\<close>,
  \<open>commit_and_continue_writing\<close> and \<open>commit\<close> (given that the live lock the registry
  grants after the commit is on a newer version than the lock held before, which is
  what the source's comments rely on), and \<open>complete_async_commit\<close>, the helper closure,
  \<open>prepare_for_close\<close>, \<open>do_end_read\<close>, \<open>rollback\<close>, \<open>end_read\<close>, \<open>close\<close>,
  \<open>promote_to_async\<close> and \<open>async_complete_writes\<close> unconditionally; this holds on the
  failing paths as well.
\<close>

theorem retained_lock_older_preserved:
  "retained_lock_older (Transaction_ctor rli stage)
   \<and> (retained_lock_older t \<longrightarrow>
        (grants_newer_version env t \<longrightarrow>
           retained_lock_older (snd (commit_and_continue_as_read commit_to_disk env t))
           \<and> retained_lock_older (snd (commit_and_continue_writing env t))
           \<and> retained_lock_older (snd (commit env env_close t)))
        \<and> retained_lock_older (complete_async_commit env t)
        \<and> retained_lock_older (sync_to_disk_job env cb t)
        \<and> retained_lock_older (snd (prepare_for_close env t))
        \<and> retained_lock_older (snd (do_end_read env t))
        \<and> retained_lock_older (snd (rollback env t))
        \<and> retained_lock_older (snd (end_read env t))
        \<and> retained_lock_older (snd (close env t))
        \<and> retained_lock_older (promote_to_async t)
        \<and> retained_lock_older (async_complete_writes cb t))"
  by (simp add: rlo_Transaction_ctor rlo_commit_and_continue_as_read
        rlo_commit_and_continue_writing rlo_commit rlo_complete_async_commit
        rlo_sync_to_disk_job rlo_prepare_for_close rlo_do_end_read rlo_rollback rlo_end_read
        rlo_close rlo_promote_to_async rlo_async_complete_writes)

theorem retained_lock_older_preserved_witness:
  "retained_lock_older ex_writer \<and> grants_newer_version ex_replies ex_writer
   \<and> m_oldest_version_not_persisted
        (snd (commit_and_continue_as_read False ex_replies ex_writer)) = Some (ex_lock 5)
   \<and> m_read_lock (snd (commit_and_continue_as_read False ex_replies ex_writer)) = ex_lock 6
   \<and> retained_lock_older (snd (commit_and_continue_as_read False ex_replies ex_writer))"
proof -
  have a: "retained_lock_older ex_writer" "grants_newer_version ex_replies ex_writer"
    by (simp_all add: retained_lock_older_def grants_newer_version_def ex_defs tx_defs)
  have b: "m_oldest_version_not_persisted
        (snd (commit_and_continue_as_read False ex_replies ex_writer)) = Some (ex_lock 5)"
    "m_read_lock (snd (commit_and_continue_as_read False ex_replies ex_writer)) = ex_lock 6"
    by (simp_all add: commit_and_continue_as_read_def commit_and_continue_as_read_try_def
          ex_defs tx_defs Let_def)
  show ?thesis
    using a b retained_lock_older_preserved
      [of "ex_lock 5" transact_Writing ex_writer ex_replies False ex_replies 7]
    by simp
qed

subsection \<open>A failed flush\<close>

lemma new_calls_append [simp]: "db_calls t' = db_calls t @ cs \<Longrightarrow> new_calls t t' = cs"
  by (simp add: new_calls_def)

text \<open>What \<open>complete_async_commit\<close> does when the commit writer throws.\<close>

lemma complete_async_commit_failed:
  assumes "grab_read_lock_reply env = Inr fresh" "group_commit_reply env = Some e"
  shows "complete_async_commit env t
           = t\<lparr>m_commit_exception := Some (Thrown e), m_async_commit_has_failed := True,
               db_calls := db_calls t @ [Grab_read_lock, Group_committer_commit (m_top_ref fresh),
                                        Release_read_lock fresh]\<rparr>"
  using assms by (simp add: complete_async_commit_def call_def Let_def)

text \<open>Detaching from Idle with a retained lock and the failure flag set.\<close>

lemma do_end_read_leaks:
  assumes "m_async_stage t = Idle" "m_oldest_version_not_persisted t = Some old"
    "m_async_commit_has_failed t"
  shows "do_end_read env t
           = (Some (Inr ()),
              t\<lparr>m_transact_stage := transact_Ready, attached := False,
                 db_calls := db_calls t @ [Detach, Leak_read_lock old,
                                          Release_read_lock (m_read_lock t)]\<rparr>)"
  using assms by (simp add: do_end_read_def prepare_for_close_def tx_defs Let_def)

text \<open>
  C2. Let the commit writer throw \<open>e\<close> inside \<open>complete_async_commit\<close> while a retained
  lock \<open>old\<close> is held. Then the exception is stored in \<open>m_commit_exception\<close>, the flag
  \<open>m_async_commit_has_failed\<close> is set, the freshly grabbed lock is released and \<open>old\<close>
  stays retained. When the Transaction then detaches (\<open>do_end_read\<close>) it leaks \<open>old\<close>
  and releases its current lock, and no call releases \<open>old\<close>; this holds when the failure
  happened on the helper thread (the closure of \<open>async_complete_writes\<close>) and when it
  happens during the detach itself, from HasCommits or HasLock. The locks are told apart
  by assuming that \<open>old\<close> is neither the fresh lock nor the current one.
\<close>

theorem failed_flush_leaks_retained_lock:
  assumes fresh: "grab_read_lock_reply env = Inr fresh"
    and fails: "group_commit_reply env = Some e"
    and retained: "m_oldest_version_not_persisted t = Some old"
    and distinct: "old \<noteq> fresh" "old \<noteq> m_read_lock t"
  shows "m_commit_exception (complete_async_commit env t) = Some (Thrown e)
       \<and> m_async_commit_has_failed (complete_async_commit env t)
       \<and> m_oldest_version_not_persisted (complete_async_commit env t) = Some old
       \<and> new_calls t (complete_async_commit env t)
           = [Grab_read_lock, Group_committer_commit (m_top_ref fresh), Release_read_lock fresh]
       \<and> detached_leaking old fresh e t (do_end_read env' (sync_to_disk_job env cb t))
       \<and> ((m_async_stage t = HasCommits \<and> m_transact_stage t = transact_Reading)
            \<or> m_async_stage t = HasLock \<longrightarrow>
           detached_leaking old fresh e t (do_end_read env t))"
proof -
  note cf = complete_async_commit_failed [OF fresh fails]
  have step: "m_commit_exception (complete_async_commit env t) = Some (Thrown e)
       \<and> m_async_commit_has_failed (complete_async_commit env t)
       \<and> m_oldest_version_not_persisted (complete_async_commit env t) = Some old
       \<and> new_calls t (complete_async_commit env t)
           = [Grab_read_lock, Group_committer_commit (m_top_ref fresh), Release_read_lock fresh]"
    using retained by (simp add: cf)
  have helper: "detached_leaking old fresh e t (do_end_read env' (sync_to_disk_job env cb t))"
  proof -
    let ?j = "sync_to_disk_job env cb t"
    have j: "m_async_stage ?j = Idle" "m_oldest_version_not_persisted ?j = Some old"
      "m_async_commit_has_failed ?j" "m_read_lock ?j = m_read_lock t"
      "m_commit_exception ?j = Some (Thrown e)"
      "db_calls ?j = db_calls t @ [Grab_read_lock, Group_committer_commit (m_top_ref fresh),
          Release_read_lock fresh,
          if m_waiting_for_sync t then Notify_all else Invoke_callback cb]"
      using retained by (simp_all add: sync_to_disk_job_def cf call_def Let_def)
    show ?thesis
      unfolding detached_leaking_def do_end_read_leaks [OF j(1,2,3)]
      using j(3,4,5,6) distinct by (simp add: new_calls_def)
  qed
  have closing: "detached_leaking old fresh e t (do_end_read env t)"
    if st: "(m_async_stage t = HasCommits \<and> m_transact_stage t = transact_Reading)
            \<or> m_async_stage t = HasLock"
    using st
  proof
    assume "m_async_stage t = HasCommits \<and> m_transact_stage t = transact_Reading"
    then show ?thesis
      unfolding detached_leaking_def using retained distinct
      by (simp add: do_end_read_def prepare_for_close_def cf tx_defs Let_def)
  next
    assume hl: "m_async_stage t = HasLock"
    have pc: "prepare_for_close env t
        = (Some (Inr ()),
           t\<lparr>m_transact_stage :=
                (if m_transact_stage t = transact_Writing then transact_Reading
                 else m_transact_stage t),
              m_async_stage := Idle,
              m_commit_exception := Some (Thrown e), m_async_commit_has_failed := True,
              db_calls := db_calls t
                @ (if m_transact_stage t = transact_Writing then [Reset_free_space_tracking]
                   else [])
                @ [Grab_read_lock, Group_committer_commit (m_top_ref fresh),
                   Release_read_lock fresh, End_write_on_correct_thread]\<rparr>)"
      using hl retained by (simp add: prepare_for_close_def cf call_def Let_def)
    show ?thesis
      unfolding detached_leaking_def do_end_read_def pc using retained distinct
      by (simp add: tx_defs Let_def)
  qed
  show ?thesis using step helper closing by simp
qed

theorem failed_flush_leaks_retained_lock_witness:
  "grab_read_lock_reply ex_failing_flush = Inr (ex_lock 6)
   \<and> group_commit_reply ex_failing_flush = Some 28
   \<and> m_oldest_version_not_persisted ex_unflushed = Some (ex_lock 4)
   \<and> ex_lock 4 \<noteq> ex_lock 6 \<and> ex_lock 4 \<noteq> m_read_lock ex_unflushed
   \<and> m_async_stage ex_unflushed = HasCommits
   \<and> m_transact_stage ex_unflushed = transact_Reading
   \<and> m_commit_exception (complete_async_commit ex_failing_flush ex_unflushed) = Some (Thrown 28)
   \<and> new_calls ex_unflushed (snd (do_end_read ex_failing_flush ex_unflushed))
       = [Grab_read_lock, Group_committer_commit 384, Release_read_lock (ex_lock 6),
          End_write_on_correct_thread, Detach, Leak_read_lock (ex_lock 4),
          Release_read_lock (ex_lock 5)]
   \<and> detached_leaking (ex_lock 4) (ex_lock 6) 28 ex_unflushed
         (do_end_read ex_failing_flush ex_unflushed)"
proof -
  have h: "grab_read_lock_reply ex_failing_flush = Inr (ex_lock 6)"
    "group_commit_reply ex_failing_flush = Some 28"
    "m_oldest_version_not_persisted ex_unflushed = Some (ex_lock 4)"
    "ex_lock 4 \<noteq> ex_lock 6" "ex_lock 4 \<noteq> m_read_lock ex_unflushed"
    by (simp_all add: ex_defs tx_defs)
  have s: "m_async_stage ex_unflushed = HasCommits"
    "m_transact_stage ex_unflushed = transact_Reading"
    by (simp_all add: ex_defs tx_defs)
  have c: "new_calls ex_unflushed (snd (do_end_read ex_failing_flush ex_unflushed))
       = [Grab_read_lock, Group_committer_commit 384, Release_read_lock (ex_lock 6),
          End_write_on_correct_thread, Detach, Leak_read_lock (ex_lock 4),
          Release_read_lock (ex_lock 5)]"
    by (simp add: do_end_read_def prepare_for_close_def complete_async_commit_def
          ex_defs tx_defs Let_def)
  show ?thesis
    using h s c failed_flush_leaks_retained_lock [OF h, of ex_replies 7] by simp
qed

section \<open>Properties of the compaction walk\<close>

lemmas walk_defs = cow_outliers_def cow_outliers_tables_def cow_outliers_hist_def
  visit_def set_back_def enter_refs_def advance_def start_tree_def hist_present_def
  hist_arr_def

lemmas ex_walk_defs = ex_group_def ex_leaf_def

text \<open>A walk entered with an overdrawn budget returns \<open>false\<close> at once.\<close>

lemma trv_exhausted: "sint (m_work_limit w) < 0 \<Longrightarrow> trv n level w = (Inr False, w)"
  by (simp add: trv.simps)

lemma on_tree_simps [simp]: "on_tree n []" "on_tree n (xs @ ys) \<longleftrightarrow> on_tree n xs \<and> on_tree n ys"
  by (simp_all add: on_tree_def)

lemma get_ref_in_node_refs: "get_ref n \<in> set (node_refs n)"
  by (cases n) simp

lemma node_refs_child:
  "i < length (elems n) \<Longrightarrow> set (node_refs (snd (elems n ! i))) \<subseteq> set (node_refs n)"
  by (cases n) (force simp: in_set_conv_nth)

lemma on_tree_child:
  "i < length (elems n) \<Longrightarrow> on_tree (snd (elems n ! i)) cs \<Longrightarrow> on_tree n cs"
  using node_refs_child[of i n] by (auto simp: on_tree_def list_all_iff)

lemma calls_visit:
  "\<exists>cs. array_calls (visit n w) = array_calls w @ Is_read_only (get_ref n) # cs \<and> on_tree n cs"
  by (simp add: visit_def Let_def on_tree_def get_ref_in_node_refs)

lemma calls_enter_refs [simp]: "array_calls (enter_refs n level w) = array_calls w"
  by (simp add: enter_refs_def Let_def)

lemma calls_advance [simp]: "array_calls (advance level w) = array_calls w"
  by (simp add: advance_def)

lemma calls_set_back [simp]: "array_calls (set_back v w) = array_calls w"
  by (simp add: set_back_def)

lemma trv_calls:
  "\<exists>cs. array_calls (snd (trv n level w)) = array_calls w @ cs \<and> on_tree n cs"
  "\<exists>cs. array_calls (snd (trv_loop n level w)) = array_calls w @ cs \<and> on_tree n cs"
proof (induction n level w and n level w rule: trv_trv_loop.induct)
  case (1 n level w)
  show ?case
  proof (cases "sint (m_work_limit w) < 0")
    case True
    then show ?thesis by (simp add: trv_exhausted)
  next
    case False
    obtain cs where v: "array_calls (visit n w) = array_calls w @ Is_read_only (get_ref n) # cs"
      "on_tree n cs" using calls_visit by blast
    have r: "on_tree n [Is_read_only (get_ref n)]" by (simp add: on_tree_def get_ref_in_node_refs)
    show ?thesis
    proof (cases "has_refs n \<and> level < length (progress (enter_refs n level (visit n w)))")
      case True
      then obtain ds where "array_calls (snd (trv_loop n level (enter_refs n level (visit n w))))
          = array_calls (enter_refs n level (visit n w)) @ ds" "on_tree n ds"
        using 1[OF False refl _ refl] by auto
      then show ?thesis using False True v r
        by (subst trv.simps) (auto simp: Let_def on_tree_def)
    next
      case False
      then show ?thesis using \<open>\<not> sint (m_work_limit w) < 0\<close> v r
        by (subst trv.simps) (auto simp: Let_def on_tree_def)
    qed
  qed
next
  case (2 n level w)
  show ?case
  proof (cases "level < length (progress w) \<and> progress w ! level < length (elems n)")
    case False
    then show ?thesis by (subst trv_loop.simps) (auto simp: Let_def)
  next
    case True
    then have lt: "level < length (progress w)" and inb: "progress w ! level < length (elems n)"
      by simp_all
    let ?ndx = "progress w ! level"
    let ?val = "fst (elems n ! ?ndx)" and ?arr = "snd (elems n ! ?ndx)"
    show ?thesis
    proof (cases "?val \<noteq> 0 \<and> ?val AND 1 = 0")
      case False
      then show ?thesis using 2(3)[OF _ refl inb refl refl False] lt inb
        by (subst trv_loop.simps) (auto simp: Let_def)
    next
      case isref: True
      obtain r w' where child: "trv ?arr (level + 1) w = (r, w')"
        by (cases "trv ?arr (level + 1) w")
      obtain cs where c1: "array_calls w' = array_calls w @ cs" "on_tree ?arr cs"
        using 2(1)[OF _ refl inb refl refl isref] lt child by auto
      have c1': "on_tree n cs" using on_tree_child[OF inb c1(2)] .
      show ?thesis
      proof (cases "r = Inr True")
        case False
        then show ?thesis using lt inb isref child c1(1) c1'
          by (subst trv_loop.simps) (auto simp: Let_def)
      next
        case True
        obtain ds where "array_calls (snd (trv_loop n level (advance level w')))
           = array_calls (advance level w') @ ds" "on_tree n ds"
          using 2(2)[OF _ refl inb refl refl isref child[symmetric] True] lt by auto
        then show ?thesis using lt inb isref child c1(1) c1' True
          by (subst trv_loop.simps) (auto simp: Let_def)
      qed
    qed
  qed
qed

lemma trv_first_call:
  assumes "\<not> sint (m_work_limit w) < 0"
  shows "\<exists>cs. array_calls (snd (trv n level w)) = array_calls w @ Is_read_only (get_ref n) # cs"
proof -
  obtain cs where v: "array_calls (visit n w) = array_calls w @ Is_read_only (get_ref n) # cs"
    using calls_visit by blast
  obtain ds where "array_calls (snd (trv_loop n level (enter_refs n level (visit n w))))
          = array_calls (enter_refs n level (visit n w)) @ ds"
    using trv_calls(2) by blast
  then show ?thesis using assms v
    by (subst trv.simps) (auto simp: Let_def)
qed

text \<open>
  A walk entered at a level that \<open>progress\<close> reaches leaves the levels above alone,
  never fails, and returns \<open>false\<close> only with the budget overdrawn.
\<close>

lemma trv_prefix:
  "level \<le> length (progress w) \<Longrightarrow>
     take level (progress (snd (trv n level w))) = take level (progress w)
     \<and> level \<le> length (progress (snd (trv n level w)))
     \<and> fst (trv n level w) \<noteq> Inl e
     \<and> (fst (trv n level w) = Inr False \<longrightarrow> sint (m_work_limit (snd (trv n level w))) < 0)"
  "level < length (progress w) \<Longrightarrow>
     take level (progress (snd (trv_loop n level w))) = take level (progress w)
     \<and> level \<le> length (progress (snd (trv_loop n level w)))
     \<and> fst (trv_loop n level w) \<noteq> Inl e
     \<and> (fst (trv_loop n level w) = Inr False \<longrightarrow> sint (m_work_limit (snd (trv_loop n level w))) < 0)"
proof (induction n level w and n level w rule: trv_trv_loop.induct)
  case (1 n level w)
  show ?case
  proof (cases "sint (m_work_limit w) < 0")
    case True
    then show ?thesis using 1(2) by (simp add: trv_exhausted)
  next
    case neg: False
    show ?thesis
    proof (cases "has_refs n")
      case False
      then show ?thesis using neg 1(2) by (subst (1 2 3 4 5) trv.simps) (simp add: Let_def)
    next
      case refs: True
      let ?w2 = "enter_refs n level (visit n w)"
      have p2: "progress ?w2 = (if length (progress w) = level then progress w @ [0] else progress w)"
        by (simp add: progress_enter_refs)
      have lt: "level < length (progress ?w2)" using p2 1(2) by (simp split: if_splits)
      have eq: "trv n level w = trv_loop n level ?w2"
        using neg refs lt by (subst trv.simps) (simp add: Let_def)
      have "take level (progress ?w2) = take level (progress w)"
        using p2 1(2) by (simp split: if_splits)
      then show ?thesis using eq 1(1)[OF neg refl refs refl _ lt] lt by simp
    qed
  qed
next
  case (2 n level w)
  note lt = 2(4)
  let ?ndx = "progress w ! level"
  show ?case
  proof (cases "?ndx < length (elems n)")
    case False
    then show ?thesis using lt by (subst (1 2 3 4 5) trv_loop.simps) (simp add: Let_def)
  next
    case inb: True
    let ?val = "fst (elems n ! ?ndx)" and ?arr = "snd (elems n ! ?ndx)"
    show ?thesis
    proof (cases "?val \<noteq> 0 \<and> ?val AND 1 = 0")
      case False
      have eq: "trv_loop n level w = trv_loop n level (advance level w)"
        using lt inb False by (subst trv_loop.simps) (auto simp: Let_def)
      show ?thesis using eq 2(3)[OF _ refl inb refl refl False] lt
        by (simp add: progress_advance)
    next
      case isref: True
      obtain r w' where child: "trv ?arr (level + 1) w = (r, w')"
        by (cases "trv ?arr (level + 1) w")
      have ih1: "take (level + 1) (progress w') = take (level + 1) (progress w)
                 \<and> level + 1 \<le> length (progress w') \<and> r \<noteq> Inl e
                 \<and> (r = Inr False \<longrightarrow> sint (m_work_limit w') < 0)"
        using 2(1)[OF _ refl inb refl refl isref] lt child by simp
      then have pre: "take level (progress w') = take level (progress w)"
        using take_Suc_eq_imp[of level "progress w'" "progress w"] by simp
      show ?thesis
      proof (cases "r = Inr True")
        case False
        have "trv_loop n level w = (r, w')"
          using lt inb isref child False by (subst trv_loop.simps) (simp add: Let_def)
        then show ?thesis using pre ih1 by simp
      next
        case True
        have eq: "trv_loop n level w = trv_loop n level (advance level w')"
          using lt inb isref child True by (subst trv_loop.simps) (simp add: Let_def)
        show ?thesis
          using eq pre 2(2)[OF _ refl inb refl refl isref child[symmetric] True] ih1 lt
          by (simp add: progress_advance)
      qed
    qed
  qed
qed

lemma length_set_back [simp]: "length (progress (set_back v w)) = length (progress w)"
  by (simp add: set_back_def)

lemma work_limit_set_back [simp]: "m_work_limit (set_back v w) = m_work_limit w"
  by (simp add: set_back_def)

text \<open>What one top-level step can do, in the terms the three lemmas below need.\<close>

lemma trv_top:
  assumes "progress w \<noteq> []"
  obtains r w' cs where "trv n 1 w = (Inr r, w')" "array_calls w' = array_calls w @ cs"
    "on_tree n cs" "progress w' \<noteq> []" "\<not> r \<Longrightarrow> sint (m_work_limit w') < 0"
proof -
  have l: "1 \<le> length (progress w)" using assms by (cases "progress w") simp_all
  obtain x w' where t: "trv n 1 w = (x, w')" by (cases "trv n 1 w")
  have "\<forall>e. x \<noteq> Inl e" using trv_prefix(1)[OF l, of n] t by simp
  then obtain r where x: "x = Inr r" by (cases x) auto
  obtain cs where c: "array_calls w' = array_calls w @ cs" "on_tree n cs"
    using trv_calls(1)[of n 1 w] t by auto
  have p: "progress w' \<noteq> []" using trv_prefix(1)[OF l, of n] t by auto
  have i: "\<not> r \<Longrightarrow> sint (m_work_limit w') < 0"
    using trv_prefix(1)[OF l, of n] t x by simp
  show thesis using that[OF t[unfolded x] c p i] by simp
qed

lemma cow_outliers_hist_calls:
  assumes "progress w \<noteq> []"
  shows "\<exists>zs. array_calls (snd (cow_outliers_hist g w)) = array_calls w @ zs
           \<and> on_tree (hist_arr g) zs \<and> (\<not> hist_present g \<longrightarrow> zs = [])"
    and "fst (cow_outliers_hist g w) = Completed \<longrightarrow> progress (snd (cow_outliers_hist g w)) = []"
    and "fst (cow_outliers_hist g w) = Interrupted \<longrightarrow>
           sint (m_work_limit (snd (cow_outliers_hist g w))) < 0
           \<and> progress (snd (cow_outliers_hist g w)) \<noteq> []"
    and "s_hist_ref_ndx g < length (elems (m_top g)) \<longrightarrow>
           fst (cow_outliers_hist g w) \<noteq> Failed e"
proof -
  obtain r w' cs where t: "trv (hist_arr g) 1 w = (Inr r, w')"
    "array_calls w' = array_calls w @ cs" "on_tree (hist_arr g) cs" "progress w' \<noteq> []"
    "\<not> r \<Longrightarrow> sint (m_work_limit w') < 0"
    using trv_top[OF assms] by metis
  show "\<exists>zs. array_calls (snd (cow_outliers_hist g w)) = array_calls w @ zs
           \<and> on_tree (hist_arr g) zs \<and> (\<not> hist_present g \<longrightarrow> zs = [])"
    using assms t by (cases r) (auto simp: cow_outliers_hist_def hist_arr_def hist_present_def)
  show "fst (cow_outliers_hist g w) = Completed \<longrightarrow> progress (snd (cow_outliers_hist g w)) = []"
    using assms t by (cases r) (auto simp: cow_outliers_hist_def hist_arr_def)
  show "fst (cow_outliers_hist g w) = Interrupted \<longrightarrow>
           sint (m_work_limit (snd (cow_outliers_hist g w))) < 0
           \<and> progress (snd (cow_outliers_hist g w)) \<noteq> []"
    using assms t by (cases r) (auto simp: cow_outliers_hist_def hist_arr_def)
  show "s_hist_ref_ndx g < length (elems (m_top g)) \<longrightarrow>
           fst (cow_outliers_hist g w) \<noteq> Failed e"
    using assms t by (cases r) (auto simp: cow_outliers_hist_def hist_arr_def)
qed

lemma cow_outliers_tables_calls:
  assumes "progress w \<noteq> []"
  shows "\<exists>ys zs. array_calls (snd (cow_outliers_tables g w)) = array_calls w @ ys @ zs
           \<and> on_tree (m_tables g) ys
           \<and> on_tree (hist_arr g) zs \<and> (\<not> hist_present g \<longrightarrow> zs = [])"
    and "fst (cow_outliers_tables g w) = Completed \<longrightarrow> progress (snd (cow_outliers_tables g w)) = []"
    and "fst (cow_outliers_tables g w) = Interrupted \<longrightarrow>
           sint (m_work_limit (snd (cow_outliers_tables g w))) < 0
           \<and> progress (snd (cow_outliers_tables g w)) \<noteq> []"
    and "s_hist_ref_ndx g < length (elems (m_top g)) \<longrightarrow>
           fst (cow_outliers_tables g w) \<noteq> Failed e"
proof -
  obtain r w' cs where t: "trv (m_tables g) 1 w = (Inr r, w')"
    "array_calls w' = array_calls w @ cs" "on_tree (m_tables g) cs" "progress w' \<noteq> []"
    "\<not> r \<Longrightarrow> sint (m_work_limit w') < 0"
    using trv_top[OF assms] by metis
  let ?w2 = "set_back (s_hist_ref_ndx g) w'"
  have ne: "progress ?w2 \<noteq> []" using t(4) by (simp add: set_back_def)
  note h = cow_outliers_hist_calls[OF ne, of g] cow_outliers_hist_calls[OF assms, of g]
  obtain zs where z: "array_calls (snd (cow_outliers_hist g ?w2)) = array_calls ?w2 @ zs"
    "on_tree (hist_arr g) zs" "\<not> hist_present g \<longrightarrow> zs = []"
    using h(1) by blast
  obtain zs' where z': "array_calls (snd (cow_outliers_hist g w)) = array_calls w @ zs'"
    "on_tree (hist_arr g) zs'" "\<not> hist_present g \<longrightarrow> zs' = []"
    using h(5) by blast
  show "\<exists>ys zs. array_calls (snd (cow_outliers_tables g w)) = array_calls w @ ys @ zs
           \<and> on_tree (m_tables g) ys
           \<and> on_tree (hist_arr g) zs \<and> (\<not> hist_present g \<longrightarrow> zs = [])"
  proof (cases "progress w ! 0 = s_table_refs_ndx g")
    case False
    then have "array_calls (snd (cow_outliers_tables g w)) = array_calls w @ [] @ zs'"
      using assms z' by (simp add: cow_outliers_tables_def)
    then show ?thesis using z' on_tree_simps(1) by blast
  next
    case True
    show ?thesis
    proof (cases r)
      case True
      have "array_calls (snd (cow_outliers_tables g w)) = array_calls w @ cs @ zs"
        using assms \<open>progress w ! 0 = s_table_refs_ndx g\<close> t True z
        by (simp add: cow_outliers_tables_def)
      then show ?thesis using t(3) z by blast
    next
      case False
      have "array_calls (snd (cow_outliers_tables g w)) = array_calls w @ cs @ []"
        using assms \<open>progress w ! 0 = s_table_refs_ndx g\<close> t False
        by (simp add: cow_outliers_tables_def)
      then show ?thesis using t(3) on_tree_simps(1) by blast
    qed
  qed
  show "fst (cow_outliers_tables g w) = Completed \<longrightarrow> progress (snd (cow_outliers_tables g w)) = []"
    using assms t h(2,6) by (cases r) (auto simp: cow_outliers_tables_def)
  show "fst (cow_outliers_tables g w) = Interrupted \<longrightarrow>
           sint (m_work_limit (snd (cow_outliers_tables g w))) < 0
           \<and> progress (snd (cow_outliers_tables g w)) \<noteq> []"
    using assms t h(3,7) by (cases r) (auto simp: cow_outliers_tables_def)
  show "s_hist_ref_ndx g < length (elems (m_top g)) \<longrightarrow>
           fst (cow_outliers_tables g w) \<noteq> Failed e"
    using assms t h(4,8) by (cases r) (auto simp: cow_outliers_tables_def)
qed

text \<open>
  The walk against the specification's words: a walk entered with \<open>progress\<close> exactly
  at its level makes the calls of \<open>walk_calls\<close>, in that order, as far as it gets.
\<close>

lemma walk_calls_unfold:
  "walk_calls E n = node_calls E n @ (if has_refs n then walk_calls_slots E (elems n) else [])"
  by (cases n) simp

lemma calls_visit_eq: "array_calls (visit n w) = array_calls w @ node_calls (m_evac_limit w) n"
  by (simp add: visit_def node_calls_def Let_def)

lemma evac_visit [simp]: "m_evac_limit (visit n w) = m_evac_limit w"
  by (simp add: visit_def Let_def)

lemma evac_enter_refs [simp]: "m_evac_limit (enter_refs n level w) = m_evac_limit w"
  by (simp add: enter_refs_def Let_def)

lemma evac_advance [simp]: "m_evac_limit (advance level w) = m_evac_limit w"
  by (simp add: advance_def)

lemma evac_set_back [simp]: "m_evac_limit (set_back v w) = m_evac_limit w"
  by (simp add: set_back_def)

lemma slots_drop:
  "i < length es \<Longrightarrow>
     walk_calls_slots E (drop i es)
       = (if fst (es ! i) \<noteq> 0 \<and> fst (es ! i) AND 1 = 0 then walk_calls E (snd (es ! i)) else [])
         @ walk_calls_slots E (drop (Suc i) es)"
  by (cases "es ! i") (simp add: Cons_nth_drop_Suc [symmetric])

lemma trv_walk_calls:
  "length (progress w) = level \<Longrightarrow>
     walked (walk_calls (m_evac_limit w) n) (trv n level w) w level"
  "length (progress w) = level + 1 \<Longrightarrow>
     walked (walk_calls_slots (m_evac_limit w) (drop (progress w ! level) (elems n)))
       (trv_loop n level w) w level"
proof (induction n level w and n level w rule: trv_trv_loop.induct)
  case (1 n level w)
  show ?case
  proof (cases "sint (m_work_limit w) < 0")
    case True
    then show ?thesis by (simp add: trv_exhausted walked_def)
  next
    case neg: False
    show ?thesis
    proof (cases "has_refs n")
      case False
      have "trv n level w = (Inr True, visit n w)"
        using neg False by (subst trv.simps) (simp add: Let_def)
      then show ?thesis using False 1(2)
        by (simp add: walked_def walk_calls_unfold calls_visit_eq)
    next
      case refs: True
      let ?w2 = "enter_refs n level (visit n w)"
      have p2: "progress ?w2 = progress w @ [0]" using 1(2) by (simp add: progress_enter_refs)
      have lt: "level < length (progress ?w2)" and len: "length (progress ?w2) = level + 1"
        and z: "progress ?w2 ! level = 0"
        using p2 1(2) by (simp_all add: nth_append)
      have eq: "trv n level w = trv_loop n level ?w2"
        using neg refs lt by (subst trv.simps) (simp add: Let_def)
      have ih: "walked (walk_calls_slots (m_evac_limit w) (elems n)) (trv_loop n level ?w2) ?w2 level"
        using 1(1)[OF neg refl refs refl _ len] lt z by simp
      show ?thesis using ih refs unfolding eq walked_def
        by (auto simp: walk_calls_unfold calls_visit_eq)
    qed
  qed
next
  case (2 n level w)
  note len = 2(4)
  then have lt: "level < length (progress w)" by simp
  let ?ndx = "progress w ! level"
  let ?E = "m_evac_limit w"
  show ?case
  proof (cases "?ndx < length (elems n)")
    case False
    have "trv_loop n level w = (Inr True, w\<lparr>progress := take level (progress w)\<rparr>)"
      using lt False by (subst trv_loop.simps) (simp add: Let_def)
    then show ?thesis using False len by (simp add: walked_def)
  next
    case inb: True
    let ?val = "fst (elems n ! ?ndx)" and ?arr = "snd (elems n ! ?ndx)"
    note sd = slots_drop[OF inb, of ?E]
    show ?thesis
    proof (cases "?val \<noteq> 0 \<and> ?val AND 1 = 0")
      case False
      have eq: "trv_loop n level w = trv_loop n level (advance level w)"
        using lt inb False by (subst trv_loop.simps) (auto simp: Let_def)
      have adv: "length (progress (advance level w)) = level + 1"
        "progress (advance level w) ! level = Suc ?ndx"
        using len by (simp_all add: progress_advance)
      have "walked (walk_calls_slots ?E (drop (Suc ?ndx) (elems n)))
              (trv_loop n level (advance level w)) (advance level w) level"
        using 2(3)[OF _ refl inb refl refl False adv(1)] lt adv(2) by simp
      then show ?thesis using False unfolding eq sd walked_def by auto
    next
      case isref: True
      obtain r w' where child: "trv ?arr (level + 1) w = (r, w')"
        by (cases "trv ?arr (level + 1) w")
      have ih1: "walked (walk_calls ?E ?arr) (r, w') w (level + 1)"
        using 2(1)[OF _ refl inb refl refl isref len] lt child by simp
      then obtain cs rest where c1: "m_evac_limit w' = ?E" "array_calls w' = array_calls w @ cs"
        "walk_calls ?E ?arr = cs @ rest"
        "r = Inr True \<longrightarrow> rest = [] \<and> length (progress w') = level + 1"
        by (auto simp: walked_def)
      have pre: "take (level + 1) (progress w') = take (level + 1) (progress w)"
        using trv_prefix(1)[of "level + 1" w ?arr] len child by simp
      have same: "progress w' ! level = ?ndx"
        by (metis pre Suc_eq_plus1 lessI nth_take)
      show ?thesis
      proof (cases "r = Inr True")
        case False
        have "trv_loop n level w = (r, w')"
          using lt inb isref child False by (subst trv_loop.simps) (simp add: Let_def)
        then show ?thesis using c1 isref False unfolding sd walked_def by auto
      next
        case True
        have eq: "trv_loop n level w = trv_loop n level (advance level w')"
          using lt inb isref child True by (subst trv_loop.simps) (simp add: Let_def)
        have adv: "length (progress (advance level w')) = level + 1"
          "progress (advance level w') ! level = Suc ?ndx"
          using c1(4) True same by (simp_all add: progress_advance)
        have "walked (walk_calls_slots ?E (drop (Suc ?ndx) (elems n)))
              (trv_loop n level (advance level w')) (advance level w') level"
          using 2(2)[OF _ refl inb refl refl isref child[symmetric] True adv(1)] lt adv(2) c1(1)
          by simp
        then show ?thesis using c1 isref True unfolding eq sd walked_def by auto
      qed
    qed
  qed
qed

lemma starts_inspecting_append:
  "starts_inspecting xs \<Longrightarrow> starts_inspecting ys \<Longrightarrow> starts_inspecting (xs @ ys)"
  by (cases xs rule: starts_inspecting.cases) simp_all

lemma starts_inspecting_prefix: "starts_inspecting (xs @ ys) \<Longrightarrow> starts_inspecting xs"
  by (cases xs rule: starts_inspecting.cases) simp_all

lemma starts_inspecting_walk_calls:
  "starts_inspecting (walk_calls E n)"
  "starts_inspecting (walk_calls_slots E es)"
  by (induction E n and E es rule: walk_calls_walk_calls_slots.induct)
     (simp_all add: node_calls_def starts_inspecting_append)

lemma set_back_single:
  "length (progress w) = 1 \<Longrightarrow> progress (set_back v w) = [v]"
  by (cases "progress w") (simp_all add: set_back_def)

text \<open>The history stage, entered with \<open>progress\<close> at the history slot.\<close>

lemma cow_outliers_hist_from_slot:
  assumes "progress w = [s_hist_ref_ndx g]"
  shows "\<exists>cs rest. array_calls (snd (cow_outliers_hist g w)) = array_calls w @ cs
           \<and> (if hist_present g then walk_calls (m_evac_limit w) (hist_arr g) else []) = cs @ rest
           \<and> (fst (cow_outliers_hist g w) = Completed \<longrightarrow> rest = [])"
proof (cases "hist_present g")
  case False
  then show ?thesis using assms
    by (auto simp: cow_outliers_hist_def hist_present_def)
next
  case True
  have len: "length (progress w) = 1" using assms by simp
  obtain x w' where t: "trv (hist_arr g) 1 w = (x, w')" by (cases "trv (hist_arr g) 1 w")
  obtain cs rest where c: "array_calls w' = array_calls w @ cs"
    "walk_calls (m_evac_limit w) (hist_arr g) = cs @ rest" "x = Inr True \<longrightarrow> rest = []"
    using trv_walk_calls(1)[OF len, of "hist_arr g"] t by (auto simp: walked_def)
  have "cow_outliers_hist g w
          = (case x of Inr True \<Rightarrow> (Completed, w'\<lparr>progress := []\<rparr>)
                     | Inr False \<Rightarrow> (Interrupted, w') | Inl e \<Rightarrow> (Failed e, w'))"
    using True assms t by (simp add: cow_outliers_hist_def hist_present_def hist_arr_def)
  then show ?thesis using c True
    by (cases x) (auto split: bool.splits)
qed

text \<open>The table-ref stage, entered with \<open>progress\<close> at the table-ref slot.\<close>

lemma cow_outliers_tables_from_slot:
  assumes "progress w = [s_table_refs_ndx g]"
  shows "\<exists>cs rest. array_calls (snd (cow_outliers_tables g w)) = array_calls w @ cs
           \<and> walk_calls (m_evac_limit w) (m_tables g)
               @ (if hist_present g then walk_calls (m_evac_limit w) (hist_arr g) else [])
               = cs @ rest
           \<and> (fst (cow_outliers_tables g w) = Completed \<longrightarrow> rest = [])"
proof -
  have len: "length (progress w) = 1" using assms by simp
  obtain x w' where t: "trv (m_tables g) 1 w = (x, w')" by (cases "trv (m_tables g) 1 w")
  obtain cs rest where c: "m_evac_limit w' = m_evac_limit w"
    "array_calls w' = array_calls w @ cs"
    "walk_calls (m_evac_limit w) (m_tables g) = cs @ rest"
    "x = Inr True \<longrightarrow> rest = [] \<and> length (progress w') = 1"
    using trv_walk_calls(1)[OF len, of "m_tables g"] t by (auto simp: walked_def)
  show ?thesis
  proof (cases "x = Inr True")
    case False
    have "cow_outliers_tables g w
          = (case x of Inr False \<Rightarrow> (Interrupted, w') | Inl e \<Rightarrow> (Failed e, w'))"
      using assms t False by (cases x) (auto simp: cow_outliers_tables_def)
    then have "array_calls (snd (cow_outliers_tables g w)) = array_calls w @ cs"
      "fst (cow_outliers_tables g w) \<noteq> Completed"
      using c False by (cases x; auto split: bool.splits)+
    then show ?thesis using c(3) by auto
  next
    case True
    let ?w2 = "set_back (s_hist_ref_ndx g) w'"
    have p2: "progress ?w2 = [s_hist_ref_ndx g]" using c(4) True by (simp add: set_back_single)
    have ne: "progress w' \<noteq> []" using c(4) True by auto
    have eq: "cow_outliers_tables g w = cow_outliers_hist g ?w2"
      using assms t True ne by (simp add: cow_outliers_tables_def)
    obtain ds rest' where d: "array_calls (snd (cow_outliers_hist g ?w2)) = array_calls ?w2 @ ds"
      "(if hist_present g then walk_calls (m_evac_limit ?w2) (hist_arr g) else []) = ds @ rest'"
      "fst (cow_outliers_hist g ?w2) = Completed \<longrightarrow> rest' = []"
      using cow_outliers_hist_from_slot[OF p2] by blast
    have "array_calls (snd (cow_outliers_tables g w)) = array_calls w @ (cs @ ds)"
      using eq d(1) c(2) by simp
    moreover have "walk_calls (m_evac_limit w) (m_tables g)
               @ (if hist_present g then walk_calls (m_evac_limit w) (hist_arr g) else [])
               = (cs @ ds) @ rest'"
      using c(1,3,4) True d(2) by (simp cong: if_cong)
    ultimately show ?thesis using d(3) eq by metis
  qed
qed

text \<open>A whole call, from an empty \<open>progress\<close>.\<close>

lemma cow_outliers_from_start:
  "\<exists>rest. forest_calls evac_limit g
            = array_calls (snd (cow_outliers g [] evac_limit work_limit)) @ rest
          \<and> (fst (cow_outliers g [] evac_limit work_limit) = Completed \<longrightarrow> rest = [])"
proof -
  let ?w = "start_tree evac_limit work_limit [s_table_name_ndx g]"
  have len: "length (progress ?w) = 1" and c0: "array_calls ?w = []"
    and e0: "m_evac_limit ?w = evac_limit"
    by (simp_all add: start_tree_def)
  obtain x w' where t: "trv (m_table_names g) 1 ?w = (x, w')"
    by (cases "trv (m_table_names g) 1 ?w")
  obtain cs rest where c: "m_evac_limit w' = evac_limit" "array_calls w' = cs"
    "walk_calls evac_limit (m_table_names g) = cs @ rest"
    "x = Inr True \<longrightarrow> rest = [] \<and> length (progress w') = 1"
    using trv_walk_calls(1)[OF len, of "m_table_names g"] t c0 e0 by (auto simp: walked_def)
  show ?thesis
  proof (cases "x = Inr True")
    case False
    have "cow_outliers g [] evac_limit work_limit
          = (case x of Inr False \<Rightarrow> (Interrupted, w') | Inl e \<Rightarrow> (Failed e, w'))"
      using t False by (cases x) (auto simp: cow_outliers_def start_tree_def Let_def)
    then have "array_calls (snd (cow_outliers g [] evac_limit work_limit)) = cs"
      "fst (cow_outliers g [] evac_limit work_limit) \<noteq> Completed"
      using c False by (cases x; auto split: bool.splits)+
    then show ?thesis using c(3) by (auto simp: forest_calls_def hist_calls_def)
  next
    case True
    let ?w2 = "set_back (s_table_refs_ndx g) w'"
    have p2: "progress ?w2 = [s_table_refs_ndx g]" using c(4) True by (simp add: set_back_single)
    have ne: "progress w' \<noteq> []" using c(4) True by auto
    have eq: "cow_outliers g [] evac_limit work_limit = cow_outliers_tables g ?w2"
      using t True ne by (simp add: cow_outliers_def start_tree_def Let_def)
    obtain ds rest' where d: "array_calls (snd (cow_outliers_tables g ?w2)) = array_calls ?w2 @ ds"
      "walk_calls (m_evac_limit ?w2) (m_tables g)
         @ (if hist_present g then walk_calls (m_evac_limit ?w2) (hist_arr g) else [])
         = ds @ rest'"
      "fst (cow_outliers_tables g ?w2) = Completed \<longrightarrow> rest' = []"
      using cow_outliers_tables_from_slot[OF p2] by blast
    have "array_calls (snd (cow_outliers g [] evac_limit work_limit)) = cs @ ds"
      using eq d(1) c(2) by simp
    moreover have "forest_calls evac_limit g = (cs @ ds) @ rest'"
      using c(1,3,4) True d(2) by (simp add: forest_calls_def hist_calls_def cong: if_cong)
    ultimately show ?thesis using d(3) eq by metis
  qed
qed

lemma cow_outliers_first_node:
  assumes "0 \<le> sint work_limit"
  shows "\<exists>cs. array_calls (snd (cow_outliers g [] evac_limit work_limit))
               = node_calls evac_limit (m_table_names g) @ cs
             \<and> starts_inspecting cs"
proof -
  let ?w = "start_tree evac_limit work_limit [s_table_name_ndx g]"
  let ?r = "cow_outliers g [] evac_limit work_limit"
  obtain rest where f: "forest_calls evac_limit g = array_calls (snd ?r) @ rest"
    using cow_outliers_from_start by blast
  have ne: "progress ?w \<noteq> []" by (simp add: start_tree_def)
  have c0: "array_calls ?w = []" by (simp add: start_tree_def)
  obtain r w' cs where t: "trv (m_table_names g) 1 ?w = (Inr r, w')"
    "array_calls w' = array_calls ?w @ cs" "progress w' \<noteq> []"
    using trv_top[OF ne] by metis
  have nneg: "\<not> sint (m_work_limit ?w) < 0" using assms by (simp add: start_tree_def)
  obtain ds where d: "array_calls (snd (trv_loop (m_table_names g) 1
        (enter_refs (m_table_names g) 1 (visit (m_table_names g) ?w))))
          = array_calls (visit (m_table_names g) ?w) @ ds"
    using trv_calls(2)[of "m_table_names g" 1
        "enter_refs (m_table_names g) 1 (visit (m_table_names g) ?w)"] by auto
  have first: "\<exists>es. array_calls w' = node_calls evac_limit (m_table_names g) @ es"
    using t(1) nneg d c0
    by (subst (asm) trv.simps)
       (auto simp: Let_def calls_visit_eq start_tree_def split: if_splits)
  have later: "\<exists>es. array_calls (snd ?r) = array_calls w' @ es"
  proof (cases r)
    case False
    then show ?thesis using t by (simp add: cow_outliers_def start_tree_def Let_def)
  next
    case True
    have ne2: "progress (set_back (s_table_refs_ndx g) w') \<noteq> []"
      using t(3) by (simp add: set_back_def)
    show ?thesis
      using True t cow_outliers_tables_calls(1)[OF ne2, of g]
      by (auto simp: cow_outliers_def start_tree_def Let_def)
  qed
  from first later obtain cs' where
    cs': "array_calls (snd ?r) = node_calls evac_limit (m_table_names g) @ cs'"
    by auto
  have "forest_calls evac_limit g
          = node_calls evac_limit (m_table_names g)
              @ ((if has_refs (m_table_names g)
                  then walk_calls_slots evac_limit (elems (m_table_names g)) else [])
                 @ walk_calls evac_limit (m_tables g)
                 @ (if hist_present g then walk_calls evac_limit (hist_arr g) else []))"
    by (simp add: forest_calls_def hist_calls_def walk_calls_unfold)
  then have "(if has_refs (m_table_names g)
                  then walk_calls_slots evac_limit (elems (m_table_names g)) else [])
                 @ walk_calls evac_limit (m_tables g)
                 @ (if hist_present g then walk_calls evac_limit (hist_arr g) else [])
             = cs' @ rest"
    using f cs' by simp
  moreover have "starts_inspecting ((if has_refs (m_table_names g)
                  then walk_calls_slots evac_limit (elems (m_table_names g)) else [])
                 @ walk_calls evac_limit (m_tables g)
                 @ (if hist_present g then walk_calls evac_limit (hist_arr g) else []))"
    by (simp add: starts_inspecting_append starts_inspecting_walk_calls)
  ultimately have "starts_inspecting cs'"
    using starts_inspecting_prefix[of cs' rest] by simp
  then show ?thesis using cs' by blast
qed

lemma walk_followsI:
  assumes "expected = array_calls (snd r) @ rest" "fst r = Completed \<longrightarrow> rest = []"
  shows "walk_follows expected r"
  using assms by (auto simp: walk_follows_def)

text \<open>
  C4, as the claim states it, fails: with a work budget of exactly zero the guard
  \<open>m_work_limit < 0\<close> does not fire, the table-name node is inspected and, being
  read-only and above the limit, copied; \<open>progress\<close> is left at the table-ref slot, not
  at the start.
\<close>

theorem cow_outliers_zero_budget_counterexample:
  "cow_outliers ex_group [] 0 0
     = (Interrupted,
        \<lparr>m_evac_limit = 0, m_work_limit = - 8, m_moved = 1, progress = [1],
         array_calls = [Is_read_only 16, Copy_on_write 16]\<rparr>)"
  by (simp add: walk_defs ex_walk_defs trv.simps Let_def)

text \<open>
  C4, amended. For every tree and every \<open>evac_limit\<close>: a walk called with a budget that
  is already overdrawn (negative as the signed 64-bit \<open>m_work_limit\<close>, that is a
  \<open>work_limit\<close> of at least \<open>2^63\<close>) makes no call on any node, so it performs zero
  copy-on-write operations, and called with an empty \<open>progress\<close> it leaves \<open>progress\<close>
  pointing at the very start, the table-name slot. A budget that is not overdrawn, zero
  included, does not stop the walk before its first node: called with an empty
  \<open>progress\<close> it inspects the root of the table-name tree and copies it exactly when it is
  read-only and ends above \<open>evac_limit\<close> (the calls begin with \<open>node_calls\<close> of that root,
  and whatever follows begins with the inspection of another node).
\<close>

theorem cow_outliers_exhausted_budget:
  "(sint work_limit < 0 \<longrightarrow>
      array_calls (snd (cow_outliers g p evac_limit work_limit)) = []
      \<and> m_moved (snd (cow_outliers g p evac_limit work_limit)) = 0
      \<and> (p = [] \<longrightarrow>
           cow_outliers g p evac_limit work_limit
             = (Interrupted, start_tree evac_limit work_limit [s_table_name_ndx g])))
   \<and> (0 \<le> sint work_limit \<longrightarrow>
        (\<exists>cs. array_calls (snd (cow_outliers g [] evac_limit work_limit))
                = node_calls evac_limit (m_table_names g) @ cs
              \<and> starts_inspecting cs))"
proof -
  have "array_calls (snd (cow_outliers g p evac_limit work_limit)) = []
      \<and> m_moved (snd (cow_outliers g p evac_limit work_limit)) = 0
      \<and> (p = [] \<longrightarrow>
           cow_outliers g p evac_limit work_limit
             = (Interrupted, start_tree evac_limit work_limit [s_table_name_ndx g]))"
    if "sint work_limit < 0"
    using that
    by (simp add: cow_outliers_def cow_outliers_tables_def cow_outliers_hist_def trv_exhausted
          start_tree_def Let_def)
  then show ?thesis using cow_outliers_first_node [of work_limit g evac_limit] by blast
qed

theorem cow_outliers_exhausted_budget_witness:
  "sint (- 1 :: 64 word) < 0
   \<and> cow_outliers ex_group [] 0 (- 1) = (Interrupted, start_tree 0 (- 1) [0])
   \<and> array_calls (snd (cow_outliers ex_group [1, 2] 0 (- 1))) = []
   \<and> 0 \<le> sint (0 :: 64 word)
   \<and> is_read_only (m_table_names ex_group)
   \<and> get_ref (m_table_names ex_group) + get_byte_size (m_table_names ex_group) > 0
   \<and> (\<exists>cs. array_calls (snd (cow_outliers ex_group [] 0 0))
             = [Is_read_only 16, Copy_on_write 16] @ cs \<and> starts_inspecting cs)
   \<and> \<not> get_ref (m_table_names ex_group) + get_byte_size (m_table_names ex_group) > 100
   \<and> (\<exists>cs. array_calls (snd (cow_outliers ex_group [] 100 0)) = [Is_read_only 16] @ cs
             \<and> starts_inspecting cs)"
proof -
  have n: "node_calls 0 (m_table_names ex_group) = [Is_read_only 16, Copy_on_write 16]"
    "node_calls 100 (m_table_names ex_group) = [Is_read_only 16]"
    by (simp_all add: node_calls_def ex_group_def ex_leaf_def)
  have e: "is_read_only (m_table_names ex_group)"
    "get_ref (m_table_names ex_group) + get_byte_size (m_table_names ex_group) > 0"
    "\<not> get_ref (m_table_names ex_group) + get_byte_size (m_table_names ex_group) > 100"
    by (simp_all add: ex_group_def ex_leaf_def)
  have s: "sint (- 1 :: 64 word) < 0" "0 \<le> sint (0 :: 64 word)" "s_table_name_ndx ex_group = 0"
    by (simp_all add: ex_group_def)
  show ?thesis
    using s e cow_outliers_exhausted_budget [of "- 1" ex_group "[]" 0]
      cow_outliers_exhausted_budget [of "- 1" ex_group "[1, 2]" 0]
      cow_outliers_exhausted_budget [of 0 ex_group "[]" 0]
      cow_outliers_exhausted_budget [of 0 ex_group "[]" 100]
    by (simp add: n)
qed

text \<open>
  C6. A call of \<open>cow_outliers\<close> with an empty \<open>progress\<close> walks the table-name tree, then
  the table-ref tree, then the history tree when the top array has one: the calls it
  makes are an initial piece of \<open>forest_calls\<close>, and all of \<open>forest_calls\<close> when the call
  reaches its end; with a budget that is not overdrawn the first call inspects the
  root of the table-name tree. A call resumed at the table-ref slot walks the table-ref
  tree and then the history tree, and a call resumed at the history slot walks the
  history tree, in the same sense. Whatever \<open>progress\<close> a call is given, the calls it
  makes split into a run on nodes of the table-name tree, then a run on nodes of the
  table-ref tree, then a run on nodes of the history tree, empty when there is no
  history ref. A call that reaches the end of the walk leaves \<open>progress\<close> empty; a call
  that returns early does so with the budget overdrawn and \<open>progress\<close> not empty; and
  when the top array has a history slot the call ends in one of these two ways.
\<close>

theorem cow_outliers_top_level_order:
  "walk_follows (forest_calls evac_limit g) (cow_outliers g [] evac_limit work_limit)
   \<and> (s_table_refs_ndx g \<noteq> s_table_name_ndx g \<longrightarrow>
        walk_follows (walk_calls evac_limit (m_tables g) @ hist_calls evac_limit g)
          (cow_outliers g [s_table_refs_ndx g] evac_limit work_limit))
   \<and> (s_hist_ref_ndx g \<noteq> s_table_name_ndx g \<and> s_hist_ref_ndx g \<noteq> s_table_refs_ndx g \<longrightarrow>
        walk_follows (hist_calls evac_limit g)
          (cow_outliers g [s_hist_ref_ndx g] evac_limit work_limit))
   \<and> (\<exists>xs ys zs. array_calls (snd (cow_outliers g p evac_limit work_limit)) = xs @ ys @ zs
       \<and> on_tree (m_table_names g) xs \<and> on_tree (m_tables g) ys
       \<and> on_tree (hist_arr g) zs \<and> (\<not> hist_present g \<longrightarrow> zs = []))
   \<and> (p = [] \<and> 0 \<le> sint work_limit \<longrightarrow>
        (\<exists>cs. array_calls (snd (cow_outliers g p evac_limit work_limit))
                = Is_read_only (get_ref (m_table_names g)) # cs))
   \<and> (fst (cow_outliers g p evac_limit work_limit) = Completed \<longrightarrow>
        progress (snd (cow_outliers g p evac_limit work_limit)) = [])
   \<and> (fst (cow_outliers g p evac_limit work_limit) = Interrupted \<longrightarrow>
        sint (m_work_limit (snd (cow_outliers g p evac_limit work_limit))) < 0
        \<and> progress (snd (cow_outliers g p evac_limit work_limit)) \<noteq> [])
   \<and> (s_hist_ref_ndx g < length (elems (m_top g)) \<longrightarrow>
        fst (cow_outliers g p evac_limit work_limit) = Completed
        \<or> fst (cow_outliers g p evac_limit work_limit) = Interrupted)"
proof -
  let ?w = "start_tree evac_limit work_limit (if p = [] then [s_table_name_ndx g] else p)"
  have ne: "progress ?w \<noteq> []" by (simp add: start_tree_def)
  have c0: "array_calls ?w = []" by (simp add: start_tree_def)
  obtain r w' cs where t: "trv (m_table_names g) 1 ?w = (Inr r, w')"
    "array_calls w' = array_calls ?w @ cs" "on_tree (m_table_names g) cs" "progress w' \<noteq> []"
    "\<not> r \<Longrightarrow> sint (m_work_limit w') < 0"
    using trv_top[OF ne] by metis
  let ?w2 = "set_back (s_table_refs_ndx g) w'"
  have ne2: "progress ?w2 \<noteq> []" using t(4) by (simp add: set_back_def)
  have unfold: "cow_outliers g p evac_limit work_limit
      = (if progress ?w ! 0 = s_table_name_ndx g
         then (if r then cow_outliers_tables g ?w2 else (Interrupted, w'))
         else cow_outliers_tables g ?w)"
    using t(1,4) by (cases r) (auto simp: cow_outliers_def start_tree_def Let_def)
  note tb = cow_outliers_tables_calls[OF ne2, of g] cow_outliers_tables_calls[OF ne, of g]
  obtain ys zs where y: "array_calls (snd (cow_outliers_tables g ?w2)) = array_calls ?w2 @ ys @ zs"
    "on_tree (m_tables g) ys" "on_tree (hist_arr g) zs" "\<not> hist_present g \<longrightarrow> zs = []"
    using tb(1) by blast
  obtain ys' zs' where y': "array_calls (snd (cow_outliers_tables g ?w)) = array_calls ?w @ ys' @ zs'"
    "on_tree (m_tables g) ys'" "on_tree (hist_arr g) zs'" "\<not> hist_present g \<longrightarrow> zs' = []"
    using tb(5) by blast
  have order: "\<exists>xs ys zs. array_calls (snd (cow_outliers g p evac_limit work_limit)) = xs @ ys @ zs
       \<and> on_tree (m_table_names g) xs \<and> on_tree (m_tables g) ys
       \<and> on_tree (hist_arr g) zs \<and> (\<not> hist_present g \<longrightarrow> zs = [])"
  proof (cases "progress ?w ! 0 = s_table_name_ndx g")
    case False
    then have "array_calls (snd (cow_outliers g p evac_limit work_limit)) = [] @ ys' @ zs'"
      using unfold y' c0 by simp
    then show ?thesis using y' on_tree_simps(1) by blast
  next
    case True
    show ?thesis
    proof (cases r)
      case True
      have "array_calls (snd (cow_outliers g p evac_limit work_limit)) = cs @ ys @ zs"
        using unfold \<open>progress ?w ! 0 = s_table_name_ndx g\<close> True y t(2) c0 by simp
      then show ?thesis using t(3) y by blast
    next
      case False
      have "array_calls (snd (cow_outliers g p evac_limit work_limit)) = cs @ [] @ []"
        using unfold \<open>progress ?w ! 0 = s_table_name_ndx g\<close> False t(2) c0 by simp
      then show ?thesis using t(3) on_tree_simps(1) by blast
    qed
  qed
  have first: "\<exists>cs. array_calls (snd (cow_outliers g p evac_limit work_limit))
                = Is_read_only (get_ref (m_table_names g)) # cs"
    if "p = []" "0 \<le> sint work_limit"
  proof -
    have "\<not> sint (m_work_limit ?w) < 0" using that by (simp add: start_tree_def)
    then obtain ds where d: "array_calls w' = Is_read_only (get_ref (m_table_names g)) # ds"
      using trv_first_call[of ?w "m_table_names g" 1] t(1) c0 by auto
    have h: "progress ?w ! 0 = s_table_name_ndx g" using that by (simp add: start_tree_def)
    show ?thesis
    proof (cases r)
      case True
      then show ?thesis using unfold h y(1) d by simp
    next
      case False
      then show ?thesis using unfold h d by simp
    qed
  qed
  have completed: "fst (cow_outliers g p evac_limit work_limit) = Completed \<longrightarrow>
        progress (snd (cow_outliers g p evac_limit work_limit)) = []"
    using unfold tb(2,6) by (auto split: if_splits)
  have interrupted: "fst (cow_outliers g p evac_limit work_limit) = Interrupted \<longrightarrow>
        sint (m_work_limit (snd (cow_outliers g p evac_limit work_limit))) < 0
        \<and> progress (snd (cow_outliers g p evac_limit work_limit)) \<noteq> []"
    using unfold tb(3,7) t(4,5) by (auto split: if_splits)
  have returns: "s_hist_ref_ndx g < length (elems (m_top g)) \<longrightarrow>
        fst (cow_outliers g p evac_limit work_limit) = Completed
        \<or> fst (cow_outliers g p evac_limit work_limit) = Interrupted"
  proof
    assume a: "s_hist_ref_ndx g < length (elems (m_top g))"
    have "fst (cow_outliers g p evac_limit work_limit) \<noteq> Failed e" for e
      using unfold tb(4)[of e] tb(8)[of e] a by (auto split: if_splits)
    then show "fst (cow_outliers g p evac_limit work_limit) = Completed
        \<or> fst (cow_outliers g p evac_limit work_limit) = Interrupted"
      by (cases "fst (cow_outliers g p evac_limit work_limit)") auto
  qed
  have from_start:
    "walk_follows (forest_calls evac_limit g) (cow_outliers g [] evac_limit work_limit)"
    using cow_outliers_from_start [of evac_limit g work_limit] walk_followsI by blast
  have from_tables:
    "walk_follows (walk_calls evac_limit (m_tables g) @ hist_calls evac_limit g)
       (cow_outliers g [s_table_refs_ndx g] evac_limit work_limit)"
    if "s_table_refs_ndx g \<noteq> s_table_name_ndx g"
  proof -
    let ?w1 = "start_tree evac_limit work_limit [s_table_refs_ndx g]"
    have w1: "progress ?w1 = [s_table_refs_ndx g]" "array_calls ?w1 = []"
      "m_evac_limit ?w1 = evac_limit"
      by (simp_all add: start_tree_def)
    have eq: "cow_outliers g [s_table_refs_ndx g] evac_limit work_limit
                = cow_outliers_tables g ?w1"
      using that by (simp add: cow_outliers_def start_tree_def Let_def)
    obtain cs rest where
      "array_calls (snd (cow_outliers_tables g ?w1)) = array_calls ?w1 @ cs"
      "walk_calls (m_evac_limit ?w1) (m_tables g)
         @ (if hist_present g then walk_calls (m_evac_limit ?w1) (hist_arr g) else [])
         = cs @ rest"
      "fst (cow_outliers_tables g ?w1) = Completed \<longrightarrow> rest = []"
      using cow_outliers_tables_from_slot [OF w1(1)] by blast
    then have "walk_calls evac_limit (m_tables g) @ hist_calls evac_limit g
                 = array_calls (snd (cow_outliers_tables g ?w1)) @ rest"
      "fst (cow_outliers_tables g ?w1) = Completed \<longrightarrow> rest = []"
      unfolding w1 hist_calls_def by simp_all
    then show ?thesis unfolding eq by (rule walk_followsI)
  qed
  have from_hist:
    "walk_follows (hist_calls evac_limit g)
       (cow_outliers g [s_hist_ref_ndx g] evac_limit work_limit)"
    if "s_hist_ref_ndx g \<noteq> s_table_name_ndx g \<and> s_hist_ref_ndx g \<noteq> s_table_refs_ndx g"
  proof -
    let ?w1 = "start_tree evac_limit work_limit [s_hist_ref_ndx g]"
    have w1: "progress ?w1 = [s_hist_ref_ndx g]" "array_calls ?w1 = []"
      "m_evac_limit ?w1 = evac_limit"
      by (simp_all add: start_tree_def)
    have eq: "cow_outliers g [s_hist_ref_ndx g] evac_limit work_limit
                = cow_outliers_hist g ?w1"
      using that by (simp add: cow_outliers_def cow_outliers_tables_def start_tree_def Let_def)
    obtain cs rest where
      "array_calls (snd (cow_outliers_hist g ?w1)) = array_calls ?w1 @ cs"
      "(if hist_present g then walk_calls (m_evac_limit ?w1) (hist_arr g) else []) = cs @ rest"
      "fst (cow_outliers_hist g ?w1) = Completed \<longrightarrow> rest = []"
      using cow_outliers_hist_from_slot [OF w1(1)] by blast
    then have "hist_calls evac_limit g = array_calls (snd (cow_outliers_hist g ?w1)) @ rest"
      "fst (cow_outliers_hist g ?w1) = Completed \<longrightarrow> rest = []"
      unfolding w1 hist_calls_def by simp_all
    then show ?thesis unfolding eq by (rule walk_followsI)
  qed
  show ?thesis
    using from_start from_tables from_hist order first completed interrupted returns by blast
qed

theorem cow_outliers_top_level_order_witness:
  "0 \<le> sint (1000 :: 64 word)
   \<and> fst (cow_outliers ex_group [] 0 1000) = Completed
   \<and> progress (snd (cow_outliers ex_group [] 0 1000)) = []
   \<and> array_calls (snd (cow_outliers ex_group [] 0 1000))
       = [Is_read_only 16, Copy_on_write 16, Is_read_only 24, Copy_on_write 24,
          Is_read_only 32, Copy_on_write 32, Is_read_only 40, Copy_on_write 40,
          Is_read_only 48, Copy_on_write 48]
   \<and> fst (cow_outliers ex_group [] 0 30) = Interrupted
   \<and> sint (m_work_limit (snd (cow_outliers ex_group [] 0 30))) < 0
   \<and> progress (snd (cow_outliers ex_group [] 0 30)) \<noteq> []
   \<and> s_hist_ref_ndx ex_group < length (elems (m_top ex_group))
   \<and> s_table_refs_ndx ex_group \<noteq> s_table_name_ndx ex_group
   \<and> fst (cow_outliers ex_group [s_table_refs_ndx ex_group] 0 1000) = Completed
   \<and> array_calls (snd (cow_outliers ex_group [s_table_refs_ndx ex_group] 0 1000))
       = [Is_read_only 24, Copy_on_write 24, Is_read_only 32, Copy_on_write 32,
          Is_read_only 40, Copy_on_write 40, Is_read_only 48, Copy_on_write 48]
   \<and> (\<exists>cs. array_calls (snd (cow_outliers ex_group [] 0 1000))
             = Is_read_only (get_ref (m_table_names ex_group)) # cs)"
proof -
  have a: "fst (cow_outliers ex_group [] 0 1000) = Completed"
    by (simp add: walk_defs ex_walk_defs trv.simps trv_loop.simps Let_def)
  have a': "fst (cow_outliers ex_group [s_table_refs_ndx ex_group] 0 1000) = Completed"
    by (simp add: walk_defs ex_walk_defs trv.simps trv_loop.simps Let_def)
  have b: "fst (cow_outliers ex_group [] 0 30) = Interrupted"
    by (simp add: walk_defs ex_walk_defs trv.simps trv_loop.simps Let_def)
  have c: "s_hist_ref_ndx ex_group < length (elems (m_top ex_group))"
    "s_table_refs_ndx ex_group \<noteq> s_table_name_ndx ex_group"
    by (simp_all add: ex_walk_defs)
  have d: "0 \<le> sint (1000 :: 64 word)" by simp
  have f: "forest_calls 0 ex_group
       = [Is_read_only 16, Copy_on_write 16, Is_read_only 24, Copy_on_write 24,
          Is_read_only 32, Copy_on_write 32, Is_read_only 40, Copy_on_write 40,
          Is_read_only 48, Copy_on_write 48]"
    "walk_calls 0 (m_tables ex_group) @ hist_calls 0 ex_group
       = [Is_read_only 24, Copy_on_write 24, Is_read_only 32, Copy_on_write 32,
          Is_read_only 40, Copy_on_write 40, Is_read_only 48, Copy_on_write 48]"
    by (simp_all add: forest_calls_def hist_calls_def hist_present_def hist_arr_def
          node_calls_def ex_walk_defs)
  note t1 = cow_outliers_top_level_order [of 0 ex_group 1000 "[]"]
  note t2 = cow_outliers_top_level_order [of 0 ex_group 30 "[]"]
  have "progress (snd (cow_outliers ex_group [] 0 1000)) = []"
    using t1 a by blast
  moreover have "array_calls (snd (cow_outliers ex_group [] 0 1000)) = forest_calls 0 ex_group"
    using t1 a by (simp add: walk_follows_def)
  moreover have "array_calls (snd (cow_outliers ex_group [s_table_refs_ndx ex_group] 0 1000))
       = walk_calls 0 (m_tables ex_group) @ hist_calls 0 ex_group"
    using t1 a' c(2) by (simp add: walk_follows_def)
  moreover have "sint (m_work_limit (snd (cow_outliers ex_group [] 0 30))) < 0
      \<and> progress (snd (cow_outliers ex_group [] 0 30)) \<noteq> []"
    using t2 b by blast
  moreover have "\<exists>cs. array_calls (snd (cow_outliers ex_group [] 0 1000))
             = Is_read_only (get_ref (m_table_names ex_group)) # cs"
    using t1 d by blast
  ultimately show ?thesis using a a' b c d f by simp
qed

section \<open>Properties of \<open>Transaction::replicate\<close>\<close>

lemmas ex_repl_defs = ex_col_def ex_address_def ex_person_def ex_metadata_def ex_keyless_def

lemmas repl_defs = replicate_to_def number_of_objects_to_create_before_committing_def
  is_embedded_def get_col_info_def get_opposite_table_def get_any_def

lemma seq_None [simp]: "seq (cs, None) r = (cs @ fst r, snd r)"
  by (cases r) simp

lemma seq_Nil_right [simp]: "seq a ([], None) = a"
  by (cases a; cases "snd a") auto

lemma seq_ok:
  "snd (seq a b) = None \<longleftrightarrow> snd a = None \<and> snd b = None"
  "snd (seq a b) = None \<Longrightarrow> fst (seq a b) = fst a @ fst b"
  by (cases a; cases b; cases "snd a"; simp)+

text \<open>The classes are created up to the first table that is not well keyed.\<close>

lemma create_tables_eq:
  "create_tables ts
     = (map class_call (takeWhile well_keyed ts),
        case dropWhile well_keyed ts of [] \<Rightarrow> None | bad # later \<Rightarrow> Some (key_error bad))"
proof (induction ts)
  case Nil
  show ?case by simp
next
  case (Cons t ts)
  show ?case
  proof (cases "is_embedded t")
    case True
    then show ?thesis using Cons by (simp add: well_keyed_def class_call_def)
  next
    case False
    then show ?thesis using Cons
      by (cases "tbl_primary_key t") (simp_all add: well_keyed_def class_call_def key_error_def)
  qed
qed

lemma insert_columns_eq:
  "insert_columns S t cs
     = map (\<lambda>c. Insert_column (tbl_key t) (col_key c) (col_type (col_key c)) (col_name c)
                 (map_option tbl_key (get_opposite_table S c)))
         (filter (\<lambda>c. Some (col_key c) \<noteq> map_option col_key (tbl_primary_key t)) cs)"
  by (induction cs) simp_all

lemma create_columns_eq: "create_columns S ts = concat (map (column_calls S) ts)"
  by (induction ts) (simp_all add: insert_columns_eq column_calls_def)

text \<open>The countdown \<open>--n == 0\<close> against the number of objects created so far.\<close>

lemma batched_append:
  "batched B c (xs @ ys) = batched B c xs @ batched B (c + length xs) ys"
  by (induction xs arbitrary: c) simp_all

lemma countdown_step:
  assumes "0 < B"
  shows "(int B - int (c mod B) - 1 = 0) \<longleftrightarrow> B dvd Suc c"
    and "\<not> B dvd Suc c \<Longrightarrow> int B - int (c mod B) - 1 = int B - int (Suc c mod B)"
    and "B dvd Suc c \<Longrightarrow> int B = int B - int (Suc c mod B)"
proof -
  have lt: "c mod B < B" using assms by simp
  have d: "B dvd Suc c \<longleftrightarrow> Suc (c mod B) = B"
    using assms by (auto simp: mod_Suc dvd_eq_mod_eq_0 split: if_splits)
  show "(int B - int (c mod B) - 1 = 0) \<longleftrightarrow> B dvd Suc c"
    using lt d by auto
  show "\<not> B dvd Suc c \<Longrightarrow> int B - int (c mod B) - 1 = int B - int (Suc c mod B)"
    using d by (simp add: mod_Suc)
  show "B dvd Suc c \<Longrightarrow> int B = int B - int (Suc c mod B)"
    by (simp add: dvd_eq_mod_eq_0)
qed

lemma create_objects_of_eq:
  assumes "0 < B" "n = int B - int (c mod B)"
    and "snd (fst (create_objects_of S (int B) t (get_col_info S (Some t)) obs n)) = None"
  shows "create_objects_of S (int B) t (get_col_info S (Some t)) obs n
           = ((batched B c (map (object_calls S t) obs), None),
              int B - int ((c + length obs) mod B))"
  using assms(2,3)
proof (induction obs arbitrary: n c)
  case Nil
  then show ?case by simp
next
  case (Cons ob obs)
  let ?cols = "get_col_info S (Some t)"
  obtain ps pe where g: "generate_properties_for_obj S ob ?cols = (ps, pe)"
    by (cases "generate_properties_for_obj S ob ?cols")
  have pe: "pe = None"
  proof (rule ccontr)
    assume "pe \<noteq> None"
    then obtain e where "pe = Some e" by auto
    then show False using Cons.prems(2) g by (simp add: Let_def)
  qed
  have oc: "object_calls S t ob
      = Create_object_with_primary_key (tbl_key t) (get_key ob)
          (to_sink (case tbl_primary_key t of
                      Some pk \<Rightarrow> get_any t ob (col_key pk) | None \<Rightarrow> M_null)) # ps"
    using g by (simp add: object_calls_def)
  show ?case
  proof (cases "B dvd Suc c")
    case True
    then have z: "n - 1 = 0" using countdown_step(1)[OF assms(1), of c] Cons.prems(1) by simp
    obtain rest n' where r: "create_objects_of S (int B) t ?cols obs (int B) = (rest, n')"
      by (cases "create_objects_of S (int B) t ?cols obs (int B)")
    have nn: "int B = int B - int (Suc c mod B)" using countdown_step(3)[OF assms(1) True] .
    have e: "snd (fst (create_objects_of S (int B) t ?cols obs (int B))) = None"
      using Cons.prems(2) g pe z r by (simp add: Let_def)
    have ih: "create_objects_of S (int B) t ?cols obs (int B)
           = ((batched B (Suc c) (map (object_calls S t) obs), None),
              int B - int ((Suc c + length obs) mod B))"
      using Cons.IH[OF nn e] .
    show ?thesis using g pe z ih True oc by (simp add: Let_def)
  next
    case False
    then have z: "n - 1 \<noteq> 0" using countdown_step(1)[OF assms(1), of c] Cons.prems(1) by simp
    have nn: "n - 1 = int B - int (Suc c mod B)"
      using countdown_step(2)[OF assms(1) False] Cons.prems(1) by simp
    obtain rest n' where r: "create_objects_of S (int B) t ?cols obs (n - 1) = (rest, n')"
      by (cases "create_objects_of S (int B) t ?cols obs (n - 1)")
    have e: "snd (fst (create_objects_of S (int B) t ?cols obs (n - 1))) = None"
      using Cons.prems(2) g pe z r by (simp add: Let_def)
    have ih: "create_objects_of S (int B) t ?cols obs (n - 1)
           = ((batched B (Suc c) (map (object_calls S t) obs), None),
              int B - int ((Suc c + length obs) mod B))"
      using Cons.IH[OF nn e] .
    show ?thesis using g pe z ih False oc by (simp add: Let_def)
  qed
qed

lemma objects_to_create_Cons:
  "objects_to_create (t # ts)
     = (if is_embedded t then [] else map (\<lambda>ob. (t, ob)) (tbl_objects t)) @ objects_to_create ts"
  by (simp add: objects_to_create_def)

lemma create_objects_eq:
  assumes "0 < B" "n = int B - int (c mod B)"
    and "snd (create_objects S (int B) ts n) = None"
  shows "fst (create_objects S (int B) ts n)
           = batched B c (map (\<lambda>(t, ob). object_calls S t ob) (objects_to_create ts))"
  using assms(2,3)
proof (induction ts arbitrary: n c)
  case Nil
  then show ?case by (simp add: objects_to_create_def)
next
  case (Cons t ts)
  show ?case
  proof (cases "is_embedded t")
    case True
    then show ?thesis using Cons by (simp add: objects_to_create_Cons)
  next
    case False
    let ?r = "create_objects_of S (int B) t (get_col_info S (Some t)) (tbl_objects t) n"
    obtain cs e n' where r: "?r = ((cs, e), n')" by (cases ?r) auto
    have e: "e = None"
    proof (rule ccontr)
      assume "e \<noteq> None"
      then obtain x where "e = Some x" by auto
      then show False using Cons.prems(2) False r by simp
    qed
    have eq: "?r = ((batched B c (map (object_calls S t) (tbl_objects t)), None),
              int B - int ((c + length (tbl_objects t)) mod B))"
      using create_objects_of_eq[OF assms(1) Cons.prems(1)] r e by simp
    have rest: "snd (create_objects S (int B) ts n') = None"
      using Cons.prems(2) False r e by simp
    have n': "n' = int B - int ((c + length (tbl_objects t)) mod B)" using eq r by simp
    have ih: "fst (create_objects S (int B) ts n')
           = batched B (c + length (tbl_objects t))
               (map (\<lambda>(t, ob). object_calls S t ob) (objects_to_create ts))"
      using Cons.IH[OF n' rest] .
    show ?thesis using False r e eq ih
      by (simp add: objects_to_create_Cons batched_append comp_def)
  qed
qed

text \<open>A copy that did not throw did not throw on any object.\<close>

lemma create_objects_of_ok:
  "snd (fst (create_objects_of S B t cols obs n)) = None \<Longrightarrow> ob \<in> set obs \<Longrightarrow>
     snd (generate_properties_for_obj S ob cols) = None"
proof (induction obs arbitrary: n)
  case Nil
  then show ?case by simp
next
  case (Cons x obs)
  obtain ps pe where g: "generate_properties_for_obj S x cols = (ps, pe)"
    by (cases "generate_properties_for_obj S x cols")
  have pe: "pe = None"
  proof (rule ccontr)
    assume "pe \<noteq> None"
    then obtain e where "pe = Some e" by auto
    then show False using Cons.prems(1) g by (simp add: Let_def)
  qed
  show ?case
  proof (cases "ob = x")
    case True
    then show ?thesis using g pe by simp
  next
    case False
    then have mem: "ob \<in> set obs" using Cons.prems(2) by simp
    show ?thesis
    proof (cases "n - 1 = 0")
      case True
      then have "snd (fst (create_objects_of S B t cols obs B)) = None"
        using Cons.prems(1) g pe
        by (cases "create_objects_of S B t cols obs B") (simp add: Let_def)
      then show ?thesis using Cons.IH mem by blast
    next
      case False
      then have "snd (fst (create_objects_of S B t cols obs (n - 1))) = None"
        using Cons.prems(1) g pe
        by (cases "create_objects_of S B t cols obs (n - 1)") (simp add: Let_def)
      then show ?thesis using Cons.IH mem by blast
    qed
  qed
qed

lemma create_objects_ok:
  "snd (create_objects S B ts n) = None \<Longrightarrow> (t, ob) \<in> set (objects_to_create ts) \<Longrightarrow>
     snd (generate_properties_for_obj S ob (get_col_info S (Some t))) = None"
proof (induction ts arbitrary: n)
  case Nil
  then show ?case by (simp add: objects_to_create_def)
next
  case (Cons x ts)
  show ?case
  proof (cases "is_embedded x")
    case True
    then show ?thesis using Cons by (simp add: objects_to_create_Cons)
  next
    case False
    let ?r = "create_objects_of S B x (get_col_info S (Some x)) (tbl_objects x) n"
    obtain cs e n' where r: "?r = ((cs, e), n')" by (cases ?r) auto
    have e: "e = None"
    proof (rule ccontr)
      assume "e \<noteq> None"
      then obtain y where "e = Some y" by auto
      then show False using Cons.prems(1) False r by simp
    qed
    have rest: "snd (create_objects S B ts n') = None"
      using Cons.prems(1) False r e by simp
    from Cons.prems(2) False
    consider "t = x" "ob \<in> set (tbl_objects x)" | "(t, ob) \<in> set (objects_to_create ts)"
      by (auto simp: objects_to_create_Cons)
    then show ?thesis
    proof cases
      case 1
      then show ?thesis using create_objects_of_ok[of S B x _ "tbl_objects x" n ob] r e by simp
    next
      case 2
      then show ?thesis using Cons.IH[OF rest] by blast
    qed
  qed
qed

text \<open>Runs that did not throw, taken apart.\<close>

lemma ran_into_Nil [simp]: "ran_into ([], None) calls"
  by (simp add: ran_into_def)

lemma ran_into_Cons [simp]:
  "ran_into (x # cs, e) calls \<longleftrightarrow> x \<in> set calls \<and> ran_into (cs, e) calls"
  by (auto simp: ran_into_def)

lemma ran_into_Some [simp]: "\<not> ran_into (cs, Some e) calls"
  by (simp add: ran_into_def)

lemma ran_into_seq [simp]:
  "ran_into (seq a b) calls \<longleftrightarrow> ran_into a calls \<and> ran_into b calls"
  by (cases a; cases b; cases "snd a") (auto simp: ran_into_def)

lemma ran_into_inserts:
  "ran_into (map (\<lambda>(n, x). f n x) xs, None) calls
     \<longleftrightarrow> list_all (\<lambda>(n, x). f n x \<in> set calls) xs"
  by (auto simp: ran_into_def list_all_iff)

lemma get_col_info_eq:
  "get_col_info S (Some t) = map (\<lambda>c. (col_key c, embedded_target S c)) (tbl_columns t)"
  by (simp add: get_col_info_def embedded_target_def)

text \<open>
  Whatever was added without a throw has been sent: collections to whatever depth
  they nest, embedded objects behind links, and so every column of an object.
\<close>

lemma sent:
  "ran_into (add_list_items S1 c1 n1 xs emb1) calls1 \<longrightarrow> list_sent S1 emb1 c1 n1 xs calls1"
  "ran_into (add_dict_items S2 c2 n2 kvs emb2) calls2 \<longrightarrow> dict_sent S2 emb2 c2 n2 kvs calls2"
  "(case val3 of
      M_list ys \<Rightarrow> ran_into (add_list_items S3 c3 0 ys None) calls3
    | M_dict ps \<Rightarrow> ran_into (add_dict_items S3 c3 0 ps None) calls3
    | _ \<Rightarrow> ran_into (update_embedded S3 emb3 val3) calls3)
   \<longrightarrow> item_sent S3 emb3 c3 val3 calls3"
  "ran_into (update_embedded S4 emb4 val4) calls4 \<longrightarrow> embedded_sent S4 emb4 val4 calls4"
  "ran_into (generate_properties_for_obj S5 ob (get_col_info S5 (Some t))) calls5
   \<longrightarrow> properties_sent S5 t ob calls5"
  "ran_into (generate_properties S6 tk k (map (\<lambda>c. (col_key c, embedded_target S6 c)) cols) vals)
            calls6
   \<longrightarrow> columns_sent S6 tk k cols vals calls6"
proof (induction S1 emb1 c1 n1 xs calls1 and S2 emb2 c2 n2 kvs calls2
         and S3 emb3 c3 val3 calls3 and S4 emb4 val4 calls4 and S5 t ob calls5
         and S6 tk k cols vals calls6
       rule: list_sent_dict_sent_item_sent_embedded_sent_properties_sent_columns_sent.induct)
qed (simp_all add: get_col_info_eq ran_into_inserts split: mixed.splits)

lemma properties_sent_object_calls:
  assumes "snd (generate_properties_for_obj S ob (get_col_info S (Some t))) = None"
  shows "properties_sent S t ob (object_calls S t ob)"
proof -
  have "ran_into (generate_properties_for_obj S ob (get_col_info S (Some t))) (object_calls S t ob)"
    using assms by (auto simp: ran_into_def object_calls_def)
  then show ?thesis using sent(5) by blast
qed

text \<open>
  C9, as the claim states it, fails: the claim has \<open>replicate\<close> reject embedded-table
  definitions that lack a primary key. The code asks for the key under \<open>if (!table->is_embedded())\<close>
  only: a public embedded table without a primary key is accepted, its class is
  created with \<open>add_class\<close>, its column follows, and the schema is committed.
\<close>

theorem replicate_embedded_without_key_counterexample:
  "tbl_public ex_address \<and> is_embedded ex_address \<and> tbl_primary_key ex_address = None
   \<and> replicate_to False [ex_address]
       = ([Add_class 2 ''class_Address'' Embedded,
           Insert_column 2 (col_key (ex_col 0 ''city'' False None)) 0 ''city'' None,
           Commit_and_continue_writing], None)"
  by (simp add: repl_defs ex_repl_defs)

text \<open>
  C9, amended. The batch size is 100 in debug builds and 1000 otherwise. When a public
  table that is not embedded lacks a primary key or has one not named \<open>_id\<close>,
  \<open>replicate\<close> throws at the first such table, having created the classes of the public
  tables before it and nothing else; embedded tables are created without that check.
  Otherwise it first creates the classes of all public tables, then all their columns
  but the primary keys, then commits on the destination. A copy that goes on to its
  end without a throw then creates the objects of the public tables that are not
  embedded, in order, each followed by its properties, with a commit on the destination
  after every object whose number is a multiple of the batch size, and the properties
  of each object cover every column: a list column is cleared and filled, set elements
  and dictionary pairs are inserted, any other value is set, the content of every
  collection is inserted element by element, nested collections included, and the
  properties of an embedded object are sent with the link to it.
\<close>

theorem replicate_phases:
  "number_of_objects_to_create_before_committing True = 100
   \<and> number_of_objects_to_create_before_committing False = 1000
   \<and> (\<not> list_all well_keyed (filter tbl_public S) \<longrightarrow>
        replicate_to realm_debug S
          = (map class_call (takeWhile well_keyed (filter tbl_public S)),
             Some (key_error (hd (dropWhile well_keyed (filter tbl_public S))))))
   \<and> (list_all well_keyed (filter tbl_public S) \<longrightarrow>
        (\<exists>rest. fst (replicate_to realm_debug S)
                  = map class_call (filter tbl_public S)
                    @ concat (map (column_calls S) (filter tbl_public S))
                    @ [Commit_and_continue_writing] @ rest))
   \<and> (list_all well_keyed (filter tbl_public S) \<and> snd (replicate_to realm_debug S) = None \<longrightarrow>
        fst (replicate_to realm_debug S)
          = map class_call (filter tbl_public S)
            @ concat (map (column_calls S) (filter tbl_public S))
            @ [Commit_and_continue_writing]
            @ batched (nat (number_of_objects_to_create_before_committing realm_debug)) 0
                (map (\<lambda>(t, ob). object_calls S t ob)
                     (objects_to_create (filter tbl_public S)))
        \<and> list_all (\<lambda>(t, ob). properties_sent S t ob (object_calls S t ob))
            (objects_to_create (filter tbl_public S)))"
proof -
  let ?pub = "filter tbl_public S"
  let ?B = "nat (number_of_objects_to_create_before_committing realm_debug)"
  have B: "0 < ?B" "int ?B = number_of_objects_to_create_before_committing realm_debug"
    by (simp_all add: number_of_objects_to_create_before_committing_def)
  have sizes: "number_of_objects_to_create_before_committing True = 100
   \<and> number_of_objects_to_create_before_committing False = 1000"
    by (simp add: number_of_objects_to_create_before_committing_def)
  have rejected: "replicate_to realm_debug S
          = (map class_call (takeWhile well_keyed ?pub),
             Some (key_error (hd (dropWhile well_keyed ?pub))))"
    if "\<not> list_all well_keyed ?pub"
  proof -
    have "dropWhile well_keyed ?pub \<noteq> []"
      using that by (simp add: list_all_iff)
    then obtain bad later where "dropWhile well_keyed ?pub = bad # later"
      by (cases "dropWhile well_keyed ?pub") auto
    then show ?thesis
      by (simp add: replicate_to_def create_tables_eq Let_def)
  qed
  have accepted: "create_tables ?pub = (map class_call ?pub, None)"
    if "list_all well_keyed ?pub"
  proof -
    have tw: "takeWhile well_keyed ?pub = ?pub" and dw: "dropWhile well_keyed ?pub = []"
      using that by (simp_all add: list_all_iff)
    show ?thesis unfolding create_tables_eq tw dw by simp
  qed
  have unfold: "replicate_to realm_debug S
      = (map class_call ?pub @ concat (map (column_calls S) ?pub) @ [Commit_and_continue_writing]
           @ fst (create_objects S (int ?B) ?pub (int ?B)),
         snd (create_objects S (int ?B) ?pub (int ?B)))"
    if "list_all well_keyed ?pub"
    using accepted[OF that] B(2)
    by (simp add: replicate_to_def create_columns_eq Let_def)
  have schema: "\<exists>rest. fst (replicate_to realm_debug S)
                  = map class_call ?pub @ concat (map (column_calls S) ?pub)
                    @ [Commit_and_continue_writing] @ rest"
    if "list_all well_keyed ?pub"
    using unfold[OF that] by simp
  have objects: "fst (replicate_to realm_debug S)
          = map class_call ?pub @ concat (map (column_calls S) ?pub)
            @ [Commit_and_continue_writing]
            @ batched ?B 0 (map (\<lambda>(t, ob). object_calls S t ob) (objects_to_create ?pub))
        \<and> list_all (\<lambda>(t, ob). properties_sent S t ob (object_calls S t ob))
            (objects_to_create ?pub)"
    if "list_all well_keyed ?pub \<and> snd (replicate_to realm_debug S) = None"
  proof -
    have e: "snd (create_objects S (int ?B) ?pub (int ?B)) = None"
      using that unfold by simp
    have "int ?B = int ?B - int (0 mod ?B)" by simp
    from create_objects_eq[OF B(1) this e] have calls: "fst (replicate_to realm_debug S)
          = map class_call ?pub @ concat (map (column_calls S) ?pub)
            @ [Commit_and_continue_writing]
            @ batched ?B 0 (map (\<lambda>(t, ob). object_calls S t ob) (objects_to_create ?pub))"
      using that unfold by simp
    have "properties_sent S t ob (object_calls S t ob)"
      if "(t, ob) \<in> set (objects_to_create ?pub)" for t ob
      using create_objects_ok[OF e that] by (rule properties_sent_object_calls)
    then have "list_all (\<lambda>(t, ob). properties_sent S t ob (object_calls S t ob))
            (objects_to_create ?pub)"
      by (auto simp: list_all_iff)
    with calls show ?thesis by blast
  qed
  show ?thesis using sizes rejected schema objects by blast
qed

theorem replicate_phases_witness:
  "list_all well_keyed (filter tbl_public [ex_metadata, ex_person, ex_address])
   \<and> replicate_to False [ex_metadata, ex_person, ex_address]
       = ([Add_class_with_primary_key 1 ''class_Person'' 0 ''_id'' False TopLevel,
           Add_class 2 ''class_Address'' Embedded,
           Insert_column 1 (col_key (ex_col 1 ''tags'' True None)) 1 ''tags'' None,
           Insert_column 1 (col_key (ex_col 2 ''home'' False (Some 2))) 2 ''home'' (Some 2),
           Insert_column 2 (col_key (ex_col 0 ''city'' False None)) 0 ''city'' None,
           Commit_and_continue_writing,
           Create_object_with_primary_key 1 10 (SV_scalar 7),
           Repl_set 1 (col_key (ex_col 0 ''_id'' False None)) 10 (SV_scalar 7),
           List_clear (Coll 1 10 1 []),
           List_insert (Coll 1 10 1 []) 0 (SV_scalar 1) 0,
           List_insert (Coll 1 10 1 []) 1 (SV_collection CT_List) 1,
           List_insert (Coll 1 10 1 [Index 1]) 0 (SV_scalar 2) 0,
           Repl_set 1 (col_key (ex_col 2 ''home'' False (Some 2))) 10 (SV_link 20),
           Repl_set 2 (col_key (ex_col 0 ''city'' False None)) 20 (SV_scalar 99)],
          None)
   \<and> fst (replicate_to False [ex_metadata, ex_person, ex_address])
       = map class_call [ex_person, ex_address]
         @ concat (map (column_calls [ex_metadata, ex_person, ex_address]) [ex_person, ex_address])
         @ [Commit_and_continue_writing]
         @ batched 1000 0 (map (\<lambda>(t, ob). object_calls [ex_metadata, ex_person, ex_address] t ob)
                            (objects_to_create [ex_person, ex_address]))
   \<and> list_all (\<lambda>(t, ob). properties_sent [ex_metadata, ex_person, ex_address] t ob
                      (object_calls [ex_metadata, ex_person, ex_address] t ob))
        (objects_to_create [ex_person, ex_address])
   \<and> \<not> list_all well_keyed (filter tbl_public [ex_person, ex_keyless, ex_address])
   \<and> replicate_to False [ex_person, ex_keyless, ex_address]
       = ([Add_class_with_primary_key 1 ''class_Person'' 0 ''_id'' False TopLevel],
          Some (Missing_primary_key ''Log''))"
proof -
  have p: "filter tbl_public [ex_metadata, ex_person, ex_address] = [ex_person, ex_address]"
    "filter tbl_public [ex_person, ex_keyless, ex_address] = [ex_person, ex_keyless, ex_address]"
    by (simp_all add: ex_repl_defs)
  have k: "well_keyed ex_person" "well_keyed ex_address" "\<not> well_keyed ex_keyless"
    by (simp_all add: well_keyed_def is_embedded_def ex_repl_defs)
  have a: "replicate_to False [ex_metadata, ex_person, ex_address]
       = ([Add_class_with_primary_key 1 ''class_Person'' 0 ''_id'' False TopLevel,
           Add_class 2 ''class_Address'' Embedded,
           Insert_column 1 (col_key (ex_col 1 ''tags'' True None)) 1 ''tags'' None,
           Insert_column 1 (col_key (ex_col 2 ''home'' False (Some 2))) 2 ''home'' (Some 2),
           Insert_column 2 (col_key (ex_col 0 ''city'' False None)) 0 ''city'' None,
           Commit_and_continue_writing,
           Create_object_with_primary_key 1 10 (SV_scalar 7),
           Repl_set 1 (col_key (ex_col 0 ''_id'' False None)) 10 (SV_scalar 7),
           List_clear (Coll 1 10 1 []),
           List_insert (Coll 1 10 1 []) 0 (SV_scalar 1) 0,
           List_insert (Coll 1 10 1 []) 1 (SV_collection CT_List) 1,
           List_insert (Coll 1 10 1 [Index 1]) 0 (SV_scalar 2) 0,
           Repl_set 1 (col_key (ex_col 2 ''home'' False (Some 2))) 10 (SV_link 20),
           Repl_set 2 (col_key (ex_col 0 ''city'' False None)) 20 (SV_scalar 99)],
          None)"
    by (simp add: repl_defs ex_repl_defs)
  have n: "nat (number_of_objects_to_create_before_committing False) = 1000"
    by (simp add: number_of_objects_to_create_before_committing_def)
  have h: "hd (dropWhile well_keyed [ex_person, ex_keyless, ex_address]) = ex_keyless"
    "takeWhile well_keyed [ex_person, ex_keyless, ex_address] = [ex_person]"
    using k by simp_all
  have e: "key_error ex_keyless = Missing_primary_key ''Log''"
    "map class_call [ex_person]
       = [Add_class_with_primary_key 1 ''class_Person'' 0 ''_id'' False TopLevel]"
    by (simp_all add: key_error_def class_call_def is_embedded_def ex_repl_defs)
  note t1 = replicate_phases [of "[ex_metadata, ex_person, ex_address]" False]
  note t2 = replicate_phases [of "[ex_person, ex_keyless, ex_address]" False]
  have s: "snd (replicate_to False [ex_metadata, ex_person, ex_address]) = None"
    by (simp add: a)
  have w: "list_all well_keyed (filter tbl_public [ex_metadata, ex_person, ex_address])"
    "\<not> list_all well_keyed (filter tbl_public [ex_person, ex_keyless, ex_address])"
    unfolding p using k by simp_all
  have "fst (replicate_to False [ex_metadata, ex_person, ex_address])
       = map class_call [ex_person, ex_address]
         @ concat (map (column_calls [ex_metadata, ex_person, ex_address]) [ex_person, ex_address])
         @ [Commit_and_continue_writing]
         @ batched 1000 0 (map (\<lambda>(t, ob). object_calls [ex_metadata, ex_person, ex_address] t ob)
                            (objects_to_create [ex_person, ex_address]))
      \<and> list_all (\<lambda>(t, ob). properties_sent [ex_metadata, ex_person, ex_address] t ob
                      (object_calls [ex_metadata, ex_person, ex_address] t ob))
        (objects_to_create [ex_person, ex_address])"
    using t1 w(1) s unfolding p n by blast
  moreover have "replicate_to False [ex_person, ex_keyless, ex_address]
       = ([Add_class_with_primary_key 1 ''class_Person'' 0 ''_id'' False TopLevel],
          Some (Missing_primary_key ''Log''))"
    using t2 w(2) unfolding p h e by blast
  ultimately show ?thesis using w a by blast
qed

end
